theory Spec2Isabelle
  imports Complex_Main "HOL-Library.Monad_Syntax" "HOL-Library.Multiset"
begin

section \<open>The memory model\<close>

text \<open>
  \<^verbatim>\<open>hashmap.h\<close> builds its table from heap nodes linked by raw pointers, and two tables
  may live in the same memory (copy construction, assignment).  Nodes therefore live in an
  explicit heap: a list of cells indexed by address.  A cell is \<open>None\<close> once its node has
  been deleted; \<open>new\<close> takes the next address past the end, so a fresh node never aliases a
  live or a deleted one.

  Every operation returns an \<open>option\<close>: \<open>None\<close> stands for an execution without a defined
  result (a null or dangling dereference, an out-of-bounds bucket access, a remainder by a
  capacity of zero, a read of an uninitialised cursor, or a loop that never ends).  The one
  C++ exception of the file, \<open>std::out_of_range\<close>, is the value \<open>Inl out_of_range\<close>.
\<close>

type_synonym addr = nat

datatype pointer = nullptr | Node addr

datatype error = out_of_range

record ('k, 'v) ChainNode =
  key :: 'k
  val :: 'v
  nxt :: pointer

type_synonym ('k, 'v) heap = "('k, 'v) ChainNode option list"

definition deref :: "('k, 'v) heap \<Rightarrow> addr \<Rightarrow> ('k, 'v) ChainNode option" where
  "deref h a = (if a < length h then h ! a else None)"

definition new_ChainNode ::
  "('k, 'v) heap \<Rightarrow> 'k \<Rightarrow> 'v \<Rightarrow> pointer \<Rightarrow> addr \<times> ('k, 'v) heap" where
  "new_ChainNode h k v p = (length h, h @ [Some \<lparr>key = k, val = v, nxt = p\<rparr>])"

definition delete_node :: "('k, 'v) heap \<Rightarrow> addr \<Rightarrow> ('k, 'v) heap option" where
  "delete_node h a = (case deref h a of None \<Rightarrow> None | Some n \<Rightarrow> Some (h[a := None]))"

definition set_next :: "('k, 'v) heap \<Rightarrow> addr \<Rightarrow> pointer \<Rightarrow> ('k, 'v) heap option" where
  "set_next h a p =
     (case deref h a of None \<Rightarrow> None | Some n \<Rightarrow> Some (h[a := Some (n\<lparr>nxt := p\<rparr>)]))"

text \<open>
  The bucket array \<open>data\<close> belongs to one table alone (every constructor and \<open>rehash\<close>
  allocate their own), so it is a list inside the table.  \<open>sz\<close>, \<open>capacity\<close> and
  \<open>curr_idx\<close> are \<open>size_t\<close> in the source and natural numbers here: a table of \<open>capacity\<close>
  buckets and \<open>sz\<close> nodes occupies more bytes than either number, so neither can reach
  the word size before allocation fails.  No constructor initialises the cursor fields
  \<open>curr\<close> and \<open>curr_idx\<close>; \<open>None\<close> is the indeterminate value of such a field.
\<close>

record HashMap =
  data :: "pointer list"
  sz :: nat
  capacity :: nat
  curr :: "pointer option"
  curr_idx :: "nat option"

definition bucket_at :: "pointer list \<Rightarrow> nat \<Rightarrow> pointer option" where
  "bucket_at d i = (if i < length d then Some (d ! i) else None)"

definition bucket_set :: "pointer list \<Rightarrow> nat \<Rightarrow> pointer \<Rightarrow> pointer list option" where
  "bucket_set d i p = (if i < length d then Some (d[i := p]) else None)"

text \<open>\<open>std::hash<KeyT>{}(key) % capacity\<close>, for the hash function \<open>H\<close> of the key type.\<close>

definition bucket_index :: "('k \<Rightarrow> nat) \<Rightarrow> 'k \<Rightarrow> nat \<Rightarrow> nat option" where
  "bucket_index H k cap = (if cap = 0 then None else Some (H k mod cap))"

text \<open>A counted loop \<open>for (i = ...; i < n; ++i) body\<close> over the indices it visits.\<close>

fun for_loop :: "nat list \<Rightarrow> (nat \<Rightarrow> 's \<Rightarrow> 's option) \<Rightarrow> 's \<Rightarrow> 's option" where
  "for_loop [] body s = Some s"
| "for_loop (i # is) body s = do { s' \<leftarrow> body i s; for_loop is body s' }"

section \<open>The operations of \<open>HashMap\<close>\<close>

subsection \<open>Constructors and size\<close>

definition HashMap_default :: HashMap where
  "HashMap_default =
     \<lparr>data = replicate 10 nullptr, sz = 0, capacity = 10, curr = None, curr_idx = None\<rparr>"

definition HashMap_capacity :: "nat \<Rightarrow> HashMap" where
  "HashMap_capacity n =
     \<lparr>data = replicate n nullptr, sz = 0, capacity = n, curr = None, curr_idx = None\<rparr>"

definition empty_hm :: "HashMap \<Rightarrow> bool" where
  "empty_hm m = (sz m = 0)"

definition size_hm :: "HashMap \<Rightarrow> nat" where
  "size_hm m = sz m"

definition get_capacity :: "HashMap \<Rightarrow> nat" where
  "get_capacity m = capacity m"

subsection \<open>Lookup\<close>

text \<open>
  \<open>insert\<close>, \<open>at\<close> and \<open>contains\<close> run the same loop over a chain,
  \<^verbatim>\<open>while (current != nullptr) { if (current->key == key) ...; current = current->next; }\<close>
  and differ in what they do where it stops: \<open>find_node\<close> returns the node with the key,
  or \<open>nullptr\<close> when the chain ends first.
\<close>

partial_function (option) find_node ::
  "('k, 'v) heap \<Rightarrow> 'k \<Rightarrow> pointer \<Rightarrow> pointer option" where
  "find_node h k current =
     (case current of
        nullptr \<Rightarrow> Some nullptr
      | Node a \<Rightarrow> do {
          n \<leftarrow> deref h a;
          if key n = k then Some (Node a) else find_node h k (nxt n)
        })"

declare find_node.simps [code]

text \<open>
  \<open>at\<close> returns \<open>ValT&\<close>, a reference to the \<open>value\<close> field of the node it found: \<open>at_ref\<close>
  is that reference (the address of the node).  A caller either reads through it, which
  is \<open>at_hm\<close>, or writes through it, \<^verbatim>\<open>hm.at(key) = w\<close>, which is \<open>at_assign\<close>; the write
  changes the node in place and nothing else.
\<close>

definition at_ref ::
  "('k \<Rightarrow> nat) \<Rightarrow> ('k, 'v) heap \<Rightarrow> HashMap \<Rightarrow> 'k \<Rightarrow> (error + addr) option" where
  "at_ref H h m k = do {
     index \<leftarrow> bucket_index H k (capacity m);
     head \<leftarrow> bucket_at (data m) index;
     current \<leftarrow> find_node h k head;
     case current of
       nullptr \<Rightarrow> Some (Inl out_of_range)
     | Node a \<Rightarrow> Some (Inr a)
   }"

definition at_hm ::
  "('k \<Rightarrow> nat) \<Rightarrow> ('k, 'v) heap \<Rightarrow> HashMap \<Rightarrow> 'k \<Rightarrow> (error + 'v) option" where
  "at_hm H h m k = do {
     index \<leftarrow> bucket_index H k (capacity m);
     head \<leftarrow> bucket_at (data m) index;
     current \<leftarrow> find_node h k head;
     case current of
       nullptr \<Rightarrow> Some (Inl out_of_range)
     | Node a \<Rightarrow> do { n \<leftarrow> deref h a; Some (Inr (val n)) }
   }"

definition at_assign ::
  "('k \<Rightarrow> nat) \<Rightarrow> ('k, 'v) heap \<Rightarrow> HashMap \<Rightarrow> 'k \<Rightarrow> 'v
     \<Rightarrow> ((error + unit) \<times> ('k, 'v) heap \<times> HashMap) option" where
  "at_assign H h m k w = do {
     r \<leftarrow> at_ref H h m k;
     case r of
       Inl e \<Rightarrow> Some (Inl e, h, m)
     | Inr a \<Rightarrow> do { n \<leftarrow> deref h a; Some (Inr (), h[a := Some (n\<lparr>val := w\<rparr>)], m) }
   }"

definition contains ::
  "('k \<Rightarrow> nat) \<Rightarrow> ('k, 'v) heap \<Rightarrow> HashMap \<Rightarrow> 'k \<Rightarrow> bool option" where
  "contains H h m k = do {
     index \<leftarrow> bucket_index H k (capacity m);
     head \<leftarrow> bucket_at (data m) index;
     current \<leftarrow> find_node h k head;
     Some (current \<noteq> nullptr)
   }"

subsection \<open>\<open>rehash\<close> and \<open>insert\<close>\<close>

text \<open>
  The inner loop of \<open>rehash\<close> moves the nodes of one old chain to the heads of their new
  buckets; the state is the heap and the new bucket array.
\<close>

partial_function (option) rehash_chain ::
  "('k \<Rightarrow> nat) \<Rightarrow> nat \<Rightarrow> pointer \<Rightarrow> ('k, 'v) heap \<times> pointer list
     \<Rightarrow> (('k, 'v) heap \<times> pointer list) option" where
  "rehash_chain H new_capacity current s =
     (case current of
        nullptr \<Rightarrow> Some s
      | Node a \<Rightarrow> do {
          n \<leftarrow> deref (fst s) a;
          new_index \<leftarrow> bucket_index H (key n) new_capacity;
          head \<leftarrow> bucket_at (snd s) new_index;
          h' \<leftarrow> set_next (fst s) a head;
          d' \<leftarrow> bucket_set (snd s) new_index (Node a);
          rehash_chain H new_capacity (nxt n) (h', d')
        })"

declare rehash_chain.simps [code]

definition rehash ::
  "('k \<Rightarrow> nat) \<Rightarrow> ('k, 'v) heap \<Rightarrow> HashMap \<Rightarrow> nat \<Rightarrow> (('k, 'v) heap \<times> HashMap) option" where
  "rehash H h m new_capacity = do {
     let old_data = data m;
     let old_capacity = capacity m;
     s \<leftarrow> for_loop [0..<old_capacity]
            (\<lambda>i s. do { current \<leftarrow> bucket_at old_data i;
                        rehash_chain H new_capacity current s })
            (h, replicate new_capacity nullptr);
     Some (fst s, m\<lparr>data := snd s, capacity := new_capacity\<rparr>)
   }"

text \<open>
  The load factor is a \<open>double\<close> in the source.  Converting \<open>sz\<close> and \<open>capacity\<close> is
  exact below \<open>2 ^ 53\<close>, and for a capacity below \<open>2 ^ 52\<close> the correctly rounded
  quotient exceeds \<open>1.5\<close> exactly when the true quotient does (a true quotient above
  \<open>1.5\<close> is above it by \<open>1 / (2 * capacity)\<close> at least, more than half the spacing
  of the doubles there), so the comparison is the one over the reals.
\<close>

definition load_factor :: "HashMap \<Rightarrow> real" where
  "load_factor m = real (sz m) / real (capacity m)"

definition insert_hm ::
  "('k \<Rightarrow> nat) \<Rightarrow> ('k, 'v) heap \<Rightarrow> HashMap \<Rightarrow> 'k \<Rightarrow> 'v
     \<Rightarrow> (('k, 'v) heap \<times> HashMap) option" where
  "insert_hm H h m k v = do {
     index \<leftarrow> bucket_index H k (capacity m);
     head \<leftarrow> bucket_at (data m) index;
     current \<leftarrow> find_node h k head;
     if current \<noteq> nullptr then Some (h, m)
     else do {
       let (new_node, h1) = new_ChainNode h k v head;
       d1 \<leftarrow> bucket_set (data m) index (Node new_node);
       let m1 = m\<lparr>data := d1, sz := sz m + 1\<rparr>;
       if load_factor m1 > 1.5 then rehash H h1 m1 (capacity m1 * 2) else Some (h1, m1)
     }
   }"

subsection \<open>\<open>clear\<close> and \<open>erase\<close>\<close>

partial_function (option) clear_chain ::
  "('k, 'v) heap \<Rightarrow> pointer \<Rightarrow> ('k, 'v) heap option" where
  "clear_chain h current =
     (case current of
        nullptr \<Rightarrow> Some h
      | Node to_delete \<Rightarrow> do {
          n \<leftarrow> deref h to_delete;
          h' \<leftarrow> delete_node h to_delete;
          clear_chain h' (nxt n)
        })"

declare clear_chain.simps [code]

definition clear :: "('k, 'v) heap \<Rightarrow> HashMap \<Rightarrow> (('k, 'v) heap \<times> HashMap) option" where
  "clear h m = do {
     s \<leftarrow> for_loop [0..<capacity m]
            (\<lambda>i s. do { current \<leftarrow> bucket_at (snd s) i;
                        h' \<leftarrow> clear_chain (fst s) current;
                        d' \<leftarrow> bucket_set (snd s) i nullptr;
                        Some (h', d') })
            (h, data m);
     Some (fst s, m\<lparr>data := snd s, sz := 0\<rparr>)
   }"

text \<open>
  \<open>erase\<close> returns the state together with its result, so that what an erase that throws
  leaves behind is part of the model.  \<open>sz--\<close> is reached only at a node of the table, and
  \<open>sz\<close> counts those.
\<close>

partial_function (option) erase_loop ::
  "('k, 'v) heap \<Rightarrow> HashMap \<Rightarrow> nat \<Rightarrow> 'k \<Rightarrow> pointer \<Rightarrow> pointer
     \<Rightarrow> ((error + 'v) \<times> ('k, 'v) heap \<times> HashMap) option" where
  "erase_loop h m index k current prev =
     (case current of
        nullptr \<Rightarrow> Some (Inl out_of_range, h, m)
      | Node a \<Rightarrow> do {
          n \<leftarrow> deref h a;
          if key n = k then do {
            s \<leftarrow> (case prev of
                    nullptr \<Rightarrow> do { d' \<leftarrow> bucket_set (data m) index (nxt n);
                                    Some (h, m\<lparr>data := d'\<rparr>) }
                  | Node p \<Rightarrow> do { h' \<leftarrow> set_next h p (nxt n); Some (h', m) });
            h'' \<leftarrow> delete_node (fst s) a;
            Some (Inr (val n), h'', (snd s)\<lparr>sz := sz (snd s) - 1\<rparr>)
          }
          else erase_loop h m index k (nxt n) (Node a)
        })"

declare erase_loop.simps [code]

definition erase ::
  "('k \<Rightarrow> nat) \<Rightarrow> ('k, 'v) heap \<Rightarrow> HashMap \<Rightarrow> 'k
     \<Rightarrow> ((error + 'v) \<times> ('k, 'v) heap \<times> HashMap) option" where
  "erase H h m k = do {
     index \<leftarrow> bucket_index H k (capacity m);
     head \<leftarrow> bucket_at (data m) index;
     erase_loop h m index k head nullptr
   }"

subsection \<open>Copy construction and assignment\<close>

text \<open>
  The copy loop appends through \<open>ChainNode** ptr\<close>, which points either at a bucket of
  the new array or at the \<open>next\<close> field of the node made last.
\<close>

datatype slot = Bucket nat | NextOf addr

definition write_slot ::
  "slot \<Rightarrow> pointer \<Rightarrow> ('k, 'v) heap \<times> pointer list
     \<Rightarrow> (('k, 'v) heap \<times> pointer list) option" where
  "write_slot ptr p s =
     (case ptr of
        Bucket i \<Rightarrow> do { d' \<leftarrow> bucket_set (snd s) i p; Some (fst s, d') }
      | NextOf a \<Rightarrow> do { h' \<leftarrow> set_next (fst s) a p; Some (h', snd s) })"

partial_function (option) copy_chain ::
  "pointer \<Rightarrow> slot \<Rightarrow> ('k, 'v) heap \<times> pointer list
     \<Rightarrow> (('k, 'v) heap \<times> pointer list) option" where
  "copy_chain current ptr s =
     (case current of
        nullptr \<Rightarrow> Some s
      | Node a \<Rightarrow> do {
          n \<leftarrow> deref (fst s) a;
          let (b, h1) = new_ChainNode (fst s) (key n) (val n) nullptr;
          s' \<leftarrow> write_slot ptr (Node b) (h1, snd s);
          n' \<leftarrow> deref (fst s') a;
          copy_chain (nxt n') (NextOf b) s'
        })"

declare copy_chain.simps [code]

text \<open>Steps 1 and 2 of the copy constructor; \<open>operator=\<close> repeats them word for word.\<close>

definition copy_buckets ::
  "('k, 'v) heap \<Rightarrow> HashMap \<Rightarrow> (('k, 'v) heap \<times> pointer list) option" where
  "copy_buckets h other =
     for_loop [0..<capacity other]
       (\<lambda>i s. do { current \<leftarrow> bucket_at (data other) i; copy_chain current (Bucket i) s })
       (h, replicate (capacity other) nullptr)"

definition HashMap_copy ::
  "('k, 'v) heap \<Rightarrow> HashMap \<Rightarrow> (('k, 'v) heap \<times> HashMap) option" where
  "HashMap_copy h other = do {
     s \<leftarrow> copy_buckets h other;
     Some (fst s, \<lparr>data = snd s, sz = sz other, capacity = capacity other,
                   curr = None, curr_idx = None\<rparr>)
   }"

text \<open>
  \<open>operator=\<close> compares the addresses of its two tables, so the tables are objects in a
  store (a list, addressed by position) and \<open>this\<close> and \<open>other\<close> are references into it.
\<close>

definition operator_assign ::
  "('k, 'v) heap \<Rightarrow> HashMap list \<Rightarrow> nat \<Rightarrow> nat
     \<Rightarrow> (('k, 'v) heap \<times> HashMap list) option" where
  "operator_assign h objs this other =
     (if \<not> (this < length objs \<and> other < length objs) then None
      else if this = other then Some (h, objs)
      else do {
        c \<leftarrow> clear h (objs ! this);
        s \<leftarrow> copy_buckets (fst c) (objs ! other);
        Some (fst s, objs[this := (snd c)\<lparr>capacity := capacity (objs ! other),
                                          sz := sz (objs ! other), data := snd s\<rparr>])
      })"

subsection \<open>The traversal cursor\<close>

function begin_loop :: "HashMap \<Rightarrow> nat \<Rightarrow> nat option" where
  "begin_loop m i =
     (if i < capacity m then do {
        p \<leftarrow> bucket_at (data m) i;
        if p = nullptr then begin_loop m (i + 1) else Some i
      }
      else Some i)"
  by pat_completeness auto
termination
  by (relation "measure (\<lambda>(m, i). capacity m - i)") auto

definition begin_hm :: "HashMap \<Rightarrow> HashMap option" where
  "begin_hm m = do {
     i \<leftarrow> begin_loop m 0;
     c \<leftarrow> (if i < capacity m then bucket_at (data m) i else Some nullptr);
     Some (m\<lparr>curr := Some c, curr_idx := Some i\<rparr>)
   }"

text \<open>
  \<^verbatim>\<open>while (curr == nullptr && ++curr_idx < capacity) curr = data[curr_idx];\<close>
  The loop reads \<open>curr_idx\<close> only where \<open>curr\<close> is null.
\<close>

function next_loop ::
  "HashMap \<Rightarrow> pointer \<Rightarrow> nat option \<Rightarrow> (pointer \<times> nat option) option" where
  "next_loop m c i =
     (if c = nullptr then do {
        j \<leftarrow> i;
        if j + 1 < capacity m then do {
          c' \<leftarrow> bucket_at (data m) (j + 1);
          next_loop m c' (Some (j + 1))
        }
        else Some (c, Some (j + 1))
      }
      else Some (c, i))"
  by pat_completeness auto
termination
  by (relation "measure (\<lambda>(m, c, i). capacity m - (case i of None \<Rightarrow> 0 | Some j \<Rightarrow> j))") auto

text \<open>
  \<open>next\<close> returns \<open>false\<close> as \<open>None\<close> (the reference parameters are left alone) and
  \<open>true\<close> as the pair written to them.
\<close>

definition next_hm ::
  "('k, 'v) heap \<Rightarrow> HashMap \<Rightarrow> (('k \<times> 'v) option \<times> HashMap) option" where
  "next_hm h m = do {
     c \<leftarrow> curr m;
     case c of
       nullptr \<Rightarrow> Some (None, m)
     | Node a \<Rightarrow> do {
         n \<leftarrow> deref h a;
         r \<leftarrow> next_loop m (nxt n) (curr_idx m);
         Some (Some (key n, val n), m\<lparr>curr := Some (fst r), curr_idx := snd r\<rparr>)
       }
   }"

text \<open>The loop of the usage example, \<^verbatim>\<open>while (hm.next(key, val)) ...\<close>, collecting the pairs.\<close>

partial_function (option) next_all ::
  "('k, 'v) heap \<Rightarrow> HashMap \<Rightarrow> (('k \<times> 'v) list \<times> HashMap) option" where
  "next_all h m = do {
     r \<leftarrow> next_hm h m;
     case fst r of
       None \<Rightarrow> Some ([], snd r)
     | Some kv \<Rightarrow> do { rest \<leftarrow> next_all h (snd r); Some (kv # fst rest, snd rest) }
   }"

declare next_all.simps [code]

section \<open>What a table is\<close>

text \<open>
  The statements below are about every well-formed table, not only about the ones a
  particular run builds.  A table is described by the contents of its buckets: for each
  bucket the list of its nodes, each with its address, key and value, in chain order.
\<close>

type_synonym ('k, 'v) entry = "addr \<times> 'k \<times> 'v"

text \<open>\<open>chain h p es\<close>: from \<open>p\<close>, the \<open>next\<close> pointers lead through exactly the nodes \<open>es\<close> to \<open>nullptr\<close>.\<close>

fun chain :: "('k, 'v) heap \<Rightarrow> pointer \<Rightarrow> ('k, 'v) entry list \<Rightarrow> bool" where
  "chain h p [] = (p = nullptr)"
| "chain h p (e # es) =
     (case deref h (fst e) of
        None \<Rightarrow> False
      | Some n \<Rightarrow> p = Node (fst e) \<and> key n = fst (snd e) \<and> val n = snd (snd e)
                  \<and> chain h (nxt n) es)"

definition entries :: "('k, 'v) entry list list \<Rightarrow> ('k \<times> 'v) list" where
  "entries bs = map snd (concat bs)"

definition addrs :: "('k, 'v) entry list list \<Rightarrow> addr set" where
  "addrs bs = fst ` set (concat bs)"

text \<open>
  The invariants of the data structure: the bucket array has \<open>capacity\<close> slots and
  \<open>capacity\<close> is positive, each bucket heads the chain listed for it, every key sits in
  the bucket of its hash, no node and no key occurs twice, and \<open>sz\<close> counts the nodes.
\<close>

definition table ::
  "('k \<Rightarrow> nat) \<Rightarrow> ('k, 'v) heap \<Rightarrow> HashMap \<Rightarrow> ('k, 'v) entry list list \<Rightarrow> bool" where
  "table H h m bs \<longleftrightarrow>
     0 < capacity m \<and> length (data m) = capacity m \<and> length bs = capacity m
     \<and> (\<forall>i<capacity m. chain h (data m ! i) (bs ! i))
     \<and> (\<forall>i<capacity m. \<forall>e\<in>set (bs ! i). H (fst (snd e)) mod capacity m = i)
     \<and> distinct (map fst (concat bs))
     \<and> distinct (map fst (entries bs))
     \<and> sz m = length (concat bs)"

definition valid :: "('k \<Rightarrow> nat) \<Rightarrow> ('k, 'v) heap \<Rightarrow> HashMap \<Rightarrow> bool" where
  "valid H h m \<longleftrightarrow> (\<exists>bs. table H h m bs)"

text \<open>The mapping a table stands for.\<close>

definition dict :: "('k, 'v) entry list list \<Rightarrow> 'k \<rightharpoonup> 'v" where
  "dict bs = map_of (entries bs)"

text \<open>The conjuncts of \<open>table\<close> about chains and about placement, for a bucket array under construction.\<close>

definition chains :: "('k, 'v) heap \<Rightarrow> pointer list \<Rightarrow> ('k, 'v) entry list list \<Rightarrow> bool" where
  "chains h d bs \<longleftrightarrow> length d = length bs \<and> (\<forall>i<length bs. chain h (d ! i) (bs ! i))"

definition placed :: "('k \<Rightarrow> nat) \<Rightarrow> nat \<Rightarrow> ('k, 'v) entry list list \<Rightarrow> bool" where
  "placed H n bs \<longleftrightarrow> (\<forall>i<n. \<forall>e\<in>set (bs ! i). H (fst (snd e)) mod n = i)"

subsection \<open>The nodes of a table\<close>

text \<open>
  The nodes of a table are the live nodes that its buckets lead to through \<open>next\<close>
  pointers; two tables share a node when these sets meet.
\<close>

inductive reach :: "('k, 'v) heap \<Rightarrow> pointer \<Rightarrow> addr \<Rightarrow> bool" for h where
  here: "deref h a = Some n \<Longrightarrow> reach h (Node a) a"
| further: "deref h a = Some n \<Longrightarrow> reach h (nxt n) b \<Longrightarrow> reach h (Node a) b"

code_pred reach .

definition nodes_of :: "('k, 'v) heap \<Rightarrow> HashMap \<Rightarrow> addr set" where
  "nodes_of h m = {a. \<exists>i<length (data m). reach h (data m ! i) a}"

text \<open>\<open>frame h h' A\<close>: from \<open>h\<close> to \<open>h'\<close> the heap only grew, and outside \<open>A\<close> no old cell changed.\<close>

definition frame :: "('k, 'v) heap \<Rightarrow> ('k, 'v) heap \<Rightarrow> addr set \<Rightarrow> bool" where
  "frame h h' A \<longleftrightarrow> length h \<le> length h' \<and> (\<forall>a<length h. a \<notin> A \<longrightarrow> deref h' a = deref h a)"

subsection \<open>Bucket contents and pointers inside the loops\<close>

text \<open>What \<open>rehash\<close> does to the bucket contents: each node goes to the head of its new bucket.\<close>

definition push ::
  "('k \<Rightarrow> nat) \<Rightarrow> nat \<Rightarrow> ('k, 'v) entry list list \<Rightarrow> ('k, 'v) entry \<Rightarrow> ('k, 'v) entry list list" where
  "push H n bs e = bs[H (fst (snd e)) mod n := e # bs ! (H (fst (snd e)) mod n)]"

text \<open>What a write through the reference of \<open>at\<close> does to the bucket contents.\<close>

definition set_val :: "addr \<Rightarrow> 'v \<Rightarrow> ('k, 'v) entry \<Rightarrow> ('k, 'v) entry" where
  "set_val a w e = (if fst e = a then (fst e, fst (snd e), w) else e)"

text \<open>In \<open>erase\<close>: the pointer that leads to \<open>current\<close>, the bucket or the \<open>next\<close> field of \<open>prev\<close>.\<close>

definition incoming :: "('k, 'v) heap \<Rightarrow> pointer list \<Rightarrow> nat \<Rightarrow> pointer \<Rightarrow> pointer option" where
  "incoming h d i prev =
     (case prev of nullptr \<Rightarrow> bucket_at d i | Node p \<Rightarrow> map_option nxt (deref h p))"

text \<open>The bucket contents of a copy: the same keys and values at consecutive fresh addresses.\<close>

fun relocate :: "nat \<Rightarrow> ('k, 'v) entry list \<Rightarrow> ('k, 'v) entry list" where
  "relocate b [] = []"
| "relocate b (e # es) = (b, snd e) # relocate (Suc b) es"

fun relocate_all :: "nat \<Rightarrow> ('k, 'v) entry list list \<Rightarrow> ('k, 'v) entry list list" where
  "relocate_all b [] = []"
| "relocate_all b (es # bs) = relocate b es # relocate_all (b + length es) bs"

text \<open>What \<open>*ptr\<close> holds.\<close>

fun slot_value :: "('k, 'v) heap \<times> pointer list \<Rightarrow> slot \<Rightarrow> pointer option" where
  "slot_value s (Bucket i) = bucket_at (snd s) i"
| "slot_value s (NextOf a) = map_option nxt (deref (fst s) a)"

text \<open>
  \<open>remaining h m bs rest\<close>: the cursor of \<open>m\<close> stands in front of the nodes \<open>rest\<close>, the
  end of one chain followed by all later buckets.
\<close>

definition remaining ::
  "('k, 'v) heap \<Rightarrow> HashMap \<Rightarrow> ('k, 'v) entry list list \<Rightarrow> ('k, 'v) entry list \<Rightarrow> bool" where
  "remaining h m bs rest \<longleftrightarrow>
     (\<exists>c idx. curr m = Some c \<and> curr_idx m = Some idx
        \<and> ((c = nullptr \<and> rest = [])
           \<or> (c \<noteq> nullptr \<and> idx < capacity m
               \<and> (\<exists>es. chain h c es \<and> rest = es @ concat (drop (Suc idx) bs)))))"

section \<open>Sequences of calls\<close>

text \<open>Calling \<open>insert\<close> for each pair of a list in turn.\<close>

fun insert_all ::
  "('k \<Rightarrow> nat) \<Rightarrow> ('k, 'v) heap \<Rightarrow> HashMap \<Rightarrow> ('k \<times> 'v) list
     \<Rightarrow> (('k, 'v) heap \<times> HashMap) option" where
  "insert_all H h m [] = Some (h, m)"
| "insert_all H h m (kv # kvs) = do {
     s \<leftarrow> insert_hm H h m (fst kv) (snd kv);
     insert_all H (fst s) (snd s) kvs
   }"

text \<open>
  A caller's sequence of mutating calls; \<open>AtAssign k w\<close> is \<^verbatim>\<open>hm.at(k) = w\<close>.  An \<open>erase\<close>
  or \<open>at\<close> that throws is caught by the caller, who goes on with the table as the throw
  left it.
\<close>

datatype ('k, 'v) op = Insert 'k 'v | Erase 'k | Clear | AtAssign 'k 'v

fun apply_op ::
  "('k \<Rightarrow> nat) \<Rightarrow> ('k, 'v) heap \<Rightarrow> HashMap \<Rightarrow> ('k, 'v) op
     \<Rightarrow> (('k, 'v) heap \<times> HashMap) option" where
  "apply_op H h m (Insert k v) = insert_hm H h m k v"
| "apply_op H h m (Erase k) = map_option snd (erase H h m k)"
| "apply_op H h m Clear = clear h m"
| "apply_op H h m (AtAssign k w) = map_option snd (at_assign H h m k w)"

fun run_ops ::
  "('k \<Rightarrow> nat) \<Rightarrow> ('k, 'v) heap \<Rightarrow> HashMap \<Rightarrow> ('k, 'v) op list
     \<Rightarrow> (('k, 'v) heap \<times> HashMap) option" where
  "run_ops H h m [] = Some (h, m)"
| "run_ops H h m (x # xs) = do { s \<leftarrow> apply_op H h m x; run_ops H (fst s) (snd s) xs }"

text \<open>
  The specification's reading of such a sequence, on an abstract mapping: a key is present
  when it was inserted and not since erased or cleared, and its value is the one
  associated at the insertion that made it present.
\<close>

fun spec_op :: "('k \<rightharpoonup> 'v) \<Rightarrow> ('k, 'v) op \<Rightarrow> ('k \<rightharpoonup> 'v)" where
  "spec_op M (Insert k v) = (case M k of None \<Rightarrow> M(k \<mapsto> v) | Some w \<Rightarrow> M)"
| "spec_op M (Erase k) = M(k := None)"
| "spec_op M Clear = Map.empty"
| "spec_op M (AtAssign k w) = M"

definition inserted :: "('k, 'v) op list \<Rightarrow> ('k \<rightharpoonup> 'v)" where
  "inserted ops = foldl spec_op Map.empty ops"

text \<open>
  The reading that follows the code: the same keys, each with the value stored for it now,
  which is the value of that insertion or the last one written through \<open>at\<close> since.
\<close>

fun stored_op :: "('k \<rightharpoonup> 'v) \<Rightarrow> ('k, 'v) op \<Rightarrow> ('k \<rightharpoonup> 'v)" where
  "stored_op M (Insert k v) = (case M k of None \<Rightarrow> M(k \<mapsto> v) | Some w \<Rightarrow> M)"
| "stored_op M (Erase k) = M(k := None)"
| "stored_op M Clear = Map.empty"
| "stored_op M (AtAssign k w) = (case M k of None \<Rightarrow> M | Some v \<Rightarrow> M(k \<mapsto> w))"

definition stored :: "('k, 'v) op list \<Rightarrow> ('k \<rightharpoonup> 'v)" where
  "stored ops = foldl stored_op Map.empty ops"

text \<open>Any interleaving of \<open>begin\<close> and \<open>next\<close> calls; what \<open>next\<close> writes to its reference parameters is dropped.\<close>

datatype cursor_call = CBegin | CNext

fun cursor_step :: "('k, 'v) heap \<Rightarrow> HashMap \<Rightarrow> cursor_call \<Rightarrow> HashMap option" where
  "cursor_step h m CBegin = begin_hm m"
| "cursor_step h m CNext = map_option snd (next_hm h m)"

fun run_cursor :: "('k, 'v) heap \<Rightarrow> HashMap \<Rightarrow> cursor_call list \<Rightarrow> HashMap option" where
  "run_cursor h m [] = Some m"
| "run_cursor h m (x # xs) = do { m' \<leftarrow> cursor_step h m x; run_cursor h m' xs }"

text \<open>
  A program that uses tables through their public interface: it constructs tables, copies
  and assigns them, and calls their member functions, each table addressed by its position
  in the store; \<open>DoAt\<close> reads through the reference of \<open>at\<close> and \<open>DoAtAssign\<close> writes
  through it.  \<open>rehash\<close> is not among the calls.  A call on a table that does not exist
  has no result; an exception is caught and the program goes on.
\<close>

datatype ('k, 'v) call =
    New nat | NewDefault
  | DoInsert nat 'k 'v | DoErase nat 'k | DoClear nat
  | DoAt nat 'k | DoAtAssign nat 'k 'v | DoContains nat 'k
  | DoBegin nat | DoNext nat
  | DoCopy nat | DoAssign nat nat

fun call_step ::
  "('k \<Rightarrow> nat) \<Rightarrow> ('k, 'v) heap \<Rightarrow> HashMap list \<Rightarrow> ('k, 'v) call
     \<Rightarrow> (('k, 'v) heap \<times> HashMap list) option" where
  "call_step H h objs (New n) = Some (h, objs @ [HashMap_capacity n])"
| "call_step H h objs NewDefault = Some (h, objs @ [HashMap_default])"
| "call_step H h objs (DoInsert i k v) =
     (if i < length objs then do {
        s \<leftarrow> insert_hm H h (objs ! i) k v; Some (fst s, objs[i := snd s]) }
      else None)"
| "call_step H h objs (DoErase i k) =
     (if i < length objs then do {
        r \<leftarrow> erase H h (objs ! i) k; Some (fst (snd r), objs[i := snd (snd r)]) }
      else None)"
| "call_step H h objs (DoClear i) =
     (if i < length objs then do {
        s \<leftarrow> clear h (objs ! i); Some (fst s, objs[i := snd s]) }
      else None)"
| "call_step H h objs (DoAt i k) =
     (if i < length objs then do { r \<leftarrow> at_hm H h (objs ! i) k; Some (h, objs) } else None)"
| "call_step H h objs (DoAtAssign i k w) =
     (if i < length objs then do {
        r \<leftarrow> at_assign H h (objs ! i) k w; Some (fst (snd r), objs[i := snd (snd r)]) }
      else None)"
| "call_step H h objs (DoContains i k) =
     (if i < length objs then do { r \<leftarrow> contains H h (objs ! i) k; Some (h, objs) } else None)"
| "call_step H h objs (DoBegin i) =
     (if i < length objs then do { m' \<leftarrow> begin_hm (objs ! i); Some (h, objs[i := m']) }
      else None)"
| "call_step H h objs (DoNext i) =
     (if i < length objs then do { r \<leftarrow> next_hm h (objs ! i); Some (h, objs[i := snd r]) }
      else None)"
| "call_step H h objs (DoCopy i) =
     (if i < length objs then do {
        s \<leftarrow> HashMap_copy h (objs ! i); Some (fst s, objs @ [snd s]) }
      else None)"
| "call_step H h objs (DoAssign i j) = operator_assign h objs i j"

fun run_calls ::
  "('k \<Rightarrow> nat) \<Rightarrow> ('k, 'v) heap \<Rightarrow> HashMap list \<Rightarrow> ('k, 'v) call list
     \<Rightarrow> (('k, 'v) heap \<times> HashMap list) option" where
  "run_calls H h objs [] = Some (h, objs)"
| "run_calls H h objs (c # cs) = do {
     w \<leftarrow> call_step H h objs c; run_calls H (fst w) (snd w) cs }"

text \<open>
  The invariant of such a program: every table is well formed and within the load factor,
  and no two tables have a node in common.
\<close>

definition world_inv ::
  "('k \<Rightarrow> nat) \<Rightarrow> ('k, 'v) heap \<Rightarrow> HashMap list \<Rightarrow> ('k, 'v) entry list list list \<Rightarrow> bool" where
  "world_inv H h objs bss \<longleftrightarrow>
     length bss = length objs
     \<and> (\<forall>i<length objs. table H h (objs ! i) (bss ! i)
            \<and> 2 * sz (objs ! i) \<le> 3 * capacity (objs ! i))
     \<and> (\<forall>i<length objs. \<forall>j<length objs. i \<noteq> j \<longrightarrow> addrs (bss ! i) \<inter> addrs (bss ! j) = {})"

section \<open>A concrete table and a concrete program\<close>

text \<open>
  A concrete state for instantiating the theorems: keys hashed by the identity, and the
  table that \<open>insert\<close> of 1, 2 and 3 builds in two buckets.
\<close>

definition hash_id :: "nat \<Rightarrow> nat" where
  "hash_id k = k"

definition ex_heap :: "(nat, nat) heap" where
  "ex_heap = [Some \<lparr>key = 1, val = 10, nxt = nullptr\<rparr>,
              Some \<lparr>key = 2, val = 20, nxt = nullptr\<rparr>,
              Some \<lparr>key = 3, val = 30, nxt = Node 0\<rparr>]"

definition ex_map :: HashMap where
  "ex_map = \<lparr>data = [Node 1, Node 2], sz = 3, capacity = 2, curr = None, curr_idx = None\<rparr>"

text \<open>A program over tables with natural numbers as keys and values.\<close>

definition ex_calls :: "(nat, nat) call list" where
  "ex_calls = [New 2, DoInsert 0 1 10, DoInsert 0 2 20, DoInsert 0 3 30, DoInsert 0 4 40,
               DoCopy 0, DoErase 1 2, DoBegin 0, DoNext 0, NewDefault, DoAssign 2 0, DoClear 0]"

section \<open>Lemmas about the heap, chains and loops\<close>

lemma deref_append: "deref (h @ [x]) a = (if a = length h then x else deref h a)"
  by (auto simp: deref_def nth_append)

lemma deref_update:
  "deref (h[a := x]) b = (if b = a \<and> a < length h then x else deref h b)"
  by (auto simp: deref_def)

lemma deref_less: "deref h a = Some n \<Longrightarrow> a < length h"
  by (auto simp: deref_def split: if_splits)

lemma chain_heap_cong:
  "chain h p es \<Longrightarrow> (\<And>e. e \<in> set es \<Longrightarrow> deref h' (fst e) = deref h (fst e))
   \<Longrightarrow> chain h' p es"
  by (induction es arbitrary: p) (auto split: option.splits)

lemma chain_less: "chain h p es \<Longrightarrow> e \<in> set es \<Longrightarrow> fst e < length h"
  by (induction es arbitrary: p) (auto split: option.splits dest: deref_less)

lemma chain_deref:
  "chain h p es \<Longrightarrow> e \<in> set es \<Longrightarrow>
   \<exists>n. deref h (fst e) = Some n \<and> key n = fst (snd e) \<and> val n = snd (snd e)"
  by (induction es arbitrary: p) (auto split: option.splits)

lemma find_node_chain:
  "chain h p es \<Longrightarrow>
   find_node h k p =
     Some (case find (\<lambda>e. fst (snd e) = k) es of None \<Rightarrow> nullptr | Some e \<Rightarrow> Node (fst e))"
  by (induction es arbitrary: p) (auto simp: find_node.simps split: option.splits)

lemma distinct_concat_nth:
  "distinct (map f (concat bs)) \<Longrightarrow> i < length bs \<Longrightarrow> distinct (map f (bs ! i))"
  by (induction bs arbitrary: i) (auto simp: nth_Cons split: nat.splits)

lemma table_bucket_lookup:
  assumes "table H h m bs"
  shows "map_of (map snd (bs ! (H k mod capacity m))) k = map_of (entries bs) k"
proof -
  let ?i = "H k mod capacity m"
  from assms have cap: "0 < capacity m" and len: "length bs = capacity m"
    and place: "\<forall>i<capacity m. \<forall>e\<in>set (bs ! i). H (fst (snd e)) mod capacity m = i"
    and dk: "distinct (map fst (entries bs))"
    by (auto simp: table_def)
  have i: "?i < length bs" using cap len by simp
  have dki: "distinct (map fst (map snd (bs ! ?i)))"
    using dk i distinct_concat_nth[of "fst \<circ> snd" bs ?i] by (simp add: entries_def)
  have "(k, v) \<in> set (map snd (bs ! ?i)) \<longleftrightarrow> (k, v) \<in> set (entries bs)" for v
  proof
    assume "(k, v) \<in> set (map snd (bs ! ?i))"
    then show "(k, v) \<in> set (entries bs)"
      using i by (force simp: entries_def)
  next
    assume "(k, v) \<in> set (entries bs)"
    then obtain a j where j: "j < length bs" and e: "(a, k, v) \<in> set (bs ! j)"
      by (auto simp: entries_def in_set_conv_nth[of _ bs])
    with place len have "H k mod capacity m = j" by fastforce
    with e show "(k, v) \<in> set (map snd (bs ! ?i))" by force
  qed
  then have "map_of (map snd (bs ! ?i)) k = Some v \<longleftrightarrow> map_of (entries bs) k = Some v" for v
    using dk dki by (simp add: map_of_eq_Some_iff del: map_map)
  then show ?thesis
    by (cases "map_of (entries bs) k") (auto simp: )
qed

lemma find_map_of:
  "map_of (map snd es) k = map_option (snd \<circ> snd) (find (\<lambda>e. fst (snd e) = k) es)"
  by (induction es) auto

lemma find_in_set: "find P es = Some e \<Longrightarrow> e \<in> set es \<and> P e"
  by (induction es) (auto split: if_splits)

lemma table_scan:
  assumes "table H h m bs"
  shows "bucket_index H k (capacity m) = Some (H k mod capacity m)"
    and "bucket_at (data m) (H k mod capacity m) = Some (data m ! (H k mod capacity m))"
    and "chain h (data m ! (H k mod capacity m)) (bs ! (H k mod capacity m))"
    and "H k mod capacity m < capacity m"
  using assms by (auto simp: table_def bucket_index_def bucket_at_def)

lemma at_hm_table:
  assumes "table H h m bs"
  shows "at_hm H h m k =
           Some (case map_of (entries bs) k of None \<Rightarrow> Inl out_of_range | Some v \<Rightarrow> Inr v)"
proof -
  let ?i = "H k mod capacity m"
  let ?es = "bs ! ?i"
  note sc = table_scan[OF assms, of k]
  have fn: "find_node h k (data m ! ?i) =
      Some (case find (\<lambda>e. fst (snd e) = k) ?es of None \<Rightarrow> nullptr | Some e \<Rightarrow> Node (fst e))"
    using sc(3) by (rule find_node_chain)
  have lk: "map_of (entries bs) k = map_option (snd \<circ> snd) (find (\<lambda>e. fst (snd e) = k) ?es)"
    using table_bucket_lookup[OF assms, of k] find_map_of[of ?es k] by simp
  show ?thesis
  proof (cases "find (\<lambda>e. fst (snd e) = k) ?es")
    case None
    then show ?thesis using sc fn lk by (simp add: at_hm_def)
  next
    case (Some e)
    then have "e \<in> set ?es" by (auto dest: find_in_set)
    from chain_deref[OF sc(3) this] obtain n where
      "deref h (fst e) = Some n" "val n = snd (snd e)" by auto
    then show ?thesis using sc fn lk Some by (simp add: at_hm_def)
  qed
qed

lemma contains_table:
  assumes "table H h m bs"
  shows "contains H h m k = Some (map_of (entries bs) k \<noteq> None)"
proof -
  let ?i = "H k mod capacity m"
  let ?es = "bs ! ?i"
  note sc = table_scan[OF assms, of k]
  have fn: "find_node h k (data m ! ?i) =
      Some (case find (\<lambda>e. fst (snd e) = k) ?es of None \<Rightarrow> nullptr | Some e \<Rightarrow> Node (fst e))"
    using sc(3) by (rule find_node_chain)
  have lk: "map_of (entries bs) k = map_option (snd \<circ> snd) (find (\<lambda>e. fst (snd e) = k) ?es)"
    using table_bucket_lookup[OF assms, of k] find_map_of[of ?es k] by simp
  show ?thesis
    using sc fn lk by (cases "find (\<lambda>e. fst (snd e) = k) ?es") (simp_all add: contains_def)
qed

lemma for_loop_upt:
  assumes "I i s" "i \<le> n"
    and "\<And>j s. i \<le> j \<Longrightarrow> j < n \<Longrightarrow> I j s \<Longrightarrow> \<exists>s'. body j s = Some s' \<and> I (Suc j) s'"
  shows "\<exists>s'. for_loop [i..<n] body s = Some s' \<and> I n s'"
  using assms
proof (induction "n - i" arbitrary: i s)
  case 0
  then show ?case by simp
next
  case (Suc d)
  then have lt: "i < n" by simp
  from Suc.prems(3)[OF le_refl lt Suc.prems(1)] obtain s1 where
    s1: "body i s = Some s1" "I (Suc i) s1" by blast
  have "\<exists>s'. for_loop [Suc i..<n] body s1 = Some s' \<and> I n s'"
  proof (rule Suc.hyps(1))
    show "d = n - Suc i" using Suc.hyps(2) by simp
    show "I (Suc i) s1" by fact
    show "Suc i \<le> n" using lt by simp
    show "\<exists>s'. body j s = Some s' \<and> I (Suc j) s'" if "Suc i \<le> j" "j < n" "I j s" for j s
      using Suc.prems(3)[of j s] that by simp
  qed
  then show ?case using lt s1 by (simp add: upt_conv_Cons)
qed

lemma mset_concat_update:
  "j < length bs \<Longrightarrow> mset (concat (bs[j := e # bs ! j])) = add_mset e (mset (concat bs))"
  by (induction bs arbitrary: j) (auto simp: nth_Cons split: nat.splits)

lemma length_push [simp]: "length (push H n bs e) = length bs"
  by (simp add: push_def)

lemma mset_push:
  "0 < n \<Longrightarrow> length bs = n \<Longrightarrow> mset (concat (push H n bs e)) = add_mset e (mset (concat bs))"
  by (simp add: push_def mset_concat_update)

lemma length_foldl_push [simp]: "length (foldl (push H n) bs es) = length bs"
  by (induction es arbitrary: bs) auto

lemma mset_foldl_push:
  "0 < n \<Longrightarrow> length bs = n \<Longrightarrow>
   mset (concat (foldl (push H n) bs es)) = mset es + mset (concat bs)"
  by (induction es arbitrary: bs) (auto simp: mset_push)

lemma placed_push:
  "0 < n \<Longrightarrow> length bs = n \<Longrightarrow> placed H n bs \<Longrightarrow> placed H n (push H n bs e)"
  by (auto simp: placed_def push_def nth_list_update)

lemma placed_foldl_push:
  "0 < n \<Longrightarrow> length bs = n \<Longrightarrow> placed H n bs \<Longrightarrow> placed H n (foldl (push H n) bs es)"
  by (induction es arbitrary: bs) (auto simp: placed_push)

lemma chains_heap_cong:
  "chains h d bs \<Longrightarrow> (\<And>a. a \<in> addrs bs \<Longrightarrow> deref h' a = deref h a) \<Longrightarrow> chains h' d bs"
proof -
  assume c: "chains h d bs" and eq: "\<And>a. a \<in> addrs bs \<Longrightarrow> deref h' a = deref h a"
  have "chain h' (d ! i) (bs ! i)" if "i < length bs" for i
  proof (rule chain_heap_cong[of h])
    show "chain h (d ! i) (bs ! i)" using c that by (simp add: chains_def)
    fix e assume "e \<in> set (bs ! i)"
    then have "fst e \<in> addrs bs" using that by (force simp: addrs_def)
    then show "deref h' (fst e) = deref h (fst e)" by (rule eq)
  qed
  then show ?thesis using c by (simp add: chains_def)
qed

lemma rehash_chain_chain:
  assumes "0 < n" "length nbs = n" "chains h d nbs" "chain h p es"
    and "distinct (map fst (es @ concat nbs))"
  shows "\<exists>h' d'. rehash_chain H n p (h, d) = Some (h', d')
           \<and> chains h' d' (foldl (push H n) nbs es)
           \<and> length h' = length h
           \<and> (\<forall>a. a \<notin> fst ` set es \<longrightarrow> deref h' a = deref h a)"
  using assms
proof (induction es arbitrary: p h d nbs)
  case Nil
  then show ?case by (simp add: rehash_chain.simps)
next
  case (Cons e es)
  obtain a k v where e: "e = (a, k, v)" by (cases e)
  from Cons.prems(4) e obtain nd where nd: "deref h a = Some nd" "p = Node a" "key nd = k"
      "val nd = v" "chain h (nxt nd) es"
    by (auto split: option.splits)
  let ?j = "H k mod n"
  have j: "?j < n" using Cons.prems(1) by simp
  have len: "length d = n" using Cons.prems(2,3) by (simp add: chains_def)
  let ?h1 = "h[a := Some (nd\<lparr>nxt := d ! ?j\<rparr>)]"
  let ?d1 = "d[?j := Node a]"
  let ?nbs1 = "push H n nbs e"
  have a_notin: "a \<notin> fst ` set es" "a \<notin> addrs nbs"
    using Cons.prems(5) e by (auto simp: addrs_def)
  have alt: "a < length h" using nd(1) by (rule deref_less)
  have same: "deref ?h1 b = deref h b" if "b \<noteq> a" for b
    using that by (simp add: deref_update)
  have ch_old: "chains ?h1 d nbs"
    using Cons.prems(3) a_notin(2) by (auto intro!: chains_heap_cong[of h] same)
  have ch1: "chains ?h1 ?d1 ?nbs1"
    unfolding chains_def
  proof (intro conjI allI impI)
    show "length ?d1 = length ?nbs1" using len Cons.prems(2) by simp
    fix i assume "i < length ?nbs1"
    then have i: "i < n" using Cons.prems(2) by simp
    show "chain ?h1 (?d1 ! i) (?nbs1 ! i)"
    proof (cases "i = ?j")
      case True
      have "chain ?h1 (d ! ?j) (nbs ! ?j)"
        using ch_old j Cons.prems(2) by (simp add: chains_def)
      then show ?thesis
        using True j len Cons.prems(2) e nd alt
        by (simp add: push_def deref_update)
    next
      case False
      then show ?thesis
        using ch_old i len Cons.prems(2) e by (simp add: chains_def push_def)
    qed
  qed
  have rest: "chain ?h1 (nxt nd) es"
    using nd(5) a_notin(1) by (auto intro!: chain_heap_cong[of h] same)
  have "mset (map fst (es @ concat ?nbs1)) = mset (map fst ((e # es) @ concat nbs))"
    using arg_cong[OF mset_push[OF Cons.prems(1,2), of H e], of "image_mset fst"] by simp
  then have dist: "distinct (map fst (es @ concat ?nbs1))"
    using Cons.prems(5) by (metis mset_eq_imp_distinct_iff)
  from Cons.IH[OF Cons.prems(1) _ ch1 rest dist] Cons.prems(2)
  obtain h' d' where r: "rehash_chain H n (nxt nd) (?h1, ?d1) = Some (h', d')"
      "chains h' d' (foldl (push H n) ?nbs1 es)" "length h' = length ?h1"
      "\<forall>b. b \<notin> fst ` set es \<longrightarrow> deref h' b = deref ?h1 b"
    by auto
  have "rehash_chain H n p (h, d) = Some (h', d')"
    using nd j len r(1) Cons.prems(1)
    by (subst rehash_chain.simps)
       (simp add: bucket_index_def bucket_at_def set_next_def bucket_set_def)
  moreover have "\<forall>b. b \<notin> fst ` set (e # es) \<longrightarrow> deref h' b = deref h b"
    using r(4) same e by auto
  ultimately show ?case using r(2,3) by simp
qed

lemma distinct_concat_disjoint:
  "distinct (map f (concat bs)) \<Longrightarrow> i < j \<Longrightarrow> j < length bs \<Longrightarrow>
   x \<in> set (bs ! i) \<Longrightarrow> y \<in> set (bs ! j) \<Longrightarrow> f x \<noteq> f y"
proof (induction bs arbitrary: i j)
  case Nil
  then show ?case by simp
next
  case (Cons b bs)
  obtain j' where j': "j = Suc j'" using Cons.prems(2) by (cases j) auto
  show ?case
  proof (cases i)
    case 0
    have "y \<in> set (concat bs)" using Cons.prems(3,5) j' by auto
    then show ?thesis using Cons.prems(1,4) 0 by auto
  next
    case (Suc i')
    then show ?thesis using Cons.IH[of i' j'] Cons.prems j' by auto
  qed
qed

lemma concat_replicate_Nil [simp]: "concat (replicate n []) = []"
  by (induction n) auto

lemma distinct_mset_eq:
  "mset xs = mset ys \<Longrightarrow> distinct (map f xs) \<Longrightarrow> distinct (map f ys)"
proof -
  assume "mset xs = mset ys"
  then have "mset (map f xs) = mset (map f ys)" by simp
  then show "distinct (map f xs) \<Longrightarrow> distinct (map f ys)"
    by (metis mset_eq_imp_distinct_iff)
qed

lemma rehash_table:
  assumes t: "table H h m bs" and n: "0 < n"
  shows "\<exists>h' d'. rehash H h m n = Some (h', m\<lparr>data := d', capacity := n\<rparr>)
           \<and> table H h' (m\<lparr>data := d', capacity := n\<rparr>)
                (foldl (push H n) (replicate n []) (concat bs))
           \<and> length h' = length h
           \<and> (\<forall>a. a \<notin> addrs bs \<longrightarrow> deref h' a = deref h a)"
proof -
  let ?c = "capacity m"
  let ?nbs = "\<lambda>i. foldl (push H n) (replicate n []) (concat (take i bs))"
  let ?body = "\<lambda>i s. do { current \<leftarrow> bucket_at (data m) i; rehash_chain H n current s }"
  define I where "I = (\<lambda>i (s :: ('a, 'b) heap \<times> pointer list).
     chains (fst s) (snd s) (?nbs i)
     \<and> (\<forall>i'. i \<le> i' \<and> i' < ?c \<longrightarrow> chain (fst s) (data m ! i') (bs ! i'))
     \<and> length (fst s) = length h
     \<and> (\<forall>a. a \<notin> addrs bs \<longrightarrow> deref (fst s) a = deref h a))"
  from t have len: "length bs = ?c" "length (data m) = ?c"
    and ch: "\<forall>i<?c. chain h (data m ! i) (bs ! i)"
    and da: "distinct (map fst (concat bs))"
    and dk: "distinct (map fst (entries bs))"
    and sz: "sz m = length (concat bs)"
    by (auto simp: table_def)
  have I0: "I 0 (h, replicate n nullptr)"
    by (simp add: I_def chains_def ch)
  have step: "\<exists>s'. ?body j s = Some s' \<and> I (Suc j) s'" if "0 \<le> j" "j < ?c" "I j s" for j s
  proof -
    obtain hj dj where s: "s = (hj, dj)" by (cases s)
    from that(3) s have c1: "chains hj dj (?nbs j)"
      and c2: "\<forall>i'. j \<le> i' \<and> i' < ?c \<longrightarrow> chain hj (data m ! i') (bs ! i')"
      and c3: "length hj = length h"
      and c4: "\<forall>a. a \<notin> addrs bs \<longrightarrow> deref hj a = deref h a"
      by (auto simp: I_def)
    have tk: "take (Suc j) bs = take j bs @ [bs ! j]"
      using that(2) len by (simp add: take_Suc_conv_app_nth)
    have "mset (bs ! j @ concat (?nbs j)) = mset (concat (take (Suc j) bs))"
      using n by (simp add: mset_foldl_push tk)
    moreover have "distinct (map fst (concat (take (Suc j) bs)))"
    proof -
      have "concat bs = concat (take (Suc j) bs) @ concat (drop (Suc j) bs)"
        by (metis append_take_drop_id concat_append)
      then show ?thesis using da by (metis distinct_append map_append)
    qed
    ultimately have dist: "distinct (map fst (bs ! j @ concat (?nbs j)))"
      using distinct_mset_eq by metis
    from rehash_chain_chain[OF n _ c1 _ dist, of "data m ! j" H] c2 that(2)
    obtain h' d' where r: "rehash_chain H n (data m ! j) (hj, dj) = Some (h', d')"
      "chains h' d' (foldl (push H n) (?nbs j) (bs ! j))" "length h' = length hj"
      "\<forall>a. a \<notin> fst ` set (bs ! j) \<longrightarrow> deref h' a = deref hj a"
      by auto
    have "?body j s = Some (h', d')"
      using r(1) that(2) len s by (simp add: bucket_at_def)
    moreover have "I (Suc j) (h', d')"
      unfolding I_def
    proof (intro conjI allI impI)
      show "chains (fst (h', d')) (snd (h', d')) (?nbs (Suc j))"
        using r(2) by (simp add: tk)
      show "length (fst (h', d')) = length h" using r(3) c3 by simp
      show "deref (fst (h', d')) a = deref h a" if "a \<notin> addrs bs" for a
      proof -
        have "a \<notin> fst ` set (bs ! j)"
          using that \<open>j < ?c\<close> len by (force simp: addrs_def)
        then show ?thesis using r(4) c4 that by simp
      qed
      show "chain (fst (h', d')) (data m ! i') (bs ! i')" if "Suc j \<le> i' \<and> i' < ?c" for i'
      proof (rule chain_heap_cong[of hj])
        show "chain hj (data m ! i') (bs ! i')" using c2 that by simp
        fix e assume e: "e \<in> set (bs ! i')"
        have "fst e \<notin> fst ` set (bs ! j)"
          using distinct_concat_disjoint[OF da, of j i' _ e] that len e by force
        then show "deref (fst (h', d')) (fst e) = deref hj (fst e)" using r(4) by simp
      qed
    qed
    ultimately show ?thesis by blast
  qed
  from for_loop_upt[of I 0 "(h, replicate n nullptr)" ?c ?body, OF I0 _ step]
  obtain s' where s': "for_loop [0..<?c] ?body (h, replicate n nullptr) = Some s'" "I ?c s'"
    by auto
  obtain h' d' where hd: "s' = (h', d')" by (cases s')
  let ?bs' = "foldl (push H n) (replicate n []) (concat bs)"
  let ?m' = "m\<lparr>data := d', capacity := n\<rparr>"
  from s'(2) hd len have fin: "chains h' d' ?bs'" "length h' = length h"
      "\<forall>a. a \<notin> addrs bs \<longrightarrow> deref h' a = deref h a"
    by (auto simp: I_def)
  have ms: "mset (concat ?bs') = mset (concat bs)"
    using n by (simp add: mset_foldl_push)
  have pl: "placed H n ?bs'"
    using n by (intro placed_foldl_push) (auto simp: placed_def)
  have "table H h' ?m' ?bs'"
    unfolding table_def
  proof (intro conjI)
    show "0 < capacity ?m'" using n by simp
    show "length (data ?m') = capacity ?m'" using fin(1) by (simp add: chains_def)
    show "length ?bs' = capacity ?m'" by simp
    show "\<forall>i<capacity ?m'. chain h' (data ?m' ! i) (?bs' ! i)"
      using fin(1) by (simp add: chains_def)
    show "\<forall>i<capacity ?m'. \<forall>e\<in>set (?bs' ! i). H (fst (snd e)) mod capacity ?m' = i"
      using pl by (simp add: placed_def)
    show "distinct (map fst (concat ?bs'))"
      using distinct_mset_eq[OF ms[symmetric] da] .
    show "distinct (map fst (entries ?bs'))"
      using distinct_mset_eq[OF ms[symmetric], of "fst \<circ> snd"] dk by (simp add: entries_def)
    show "sz ?m' = length (concat ?bs')"
      using sz ms by (metis (no_types) HashMap.select_convs HashMap.surjective HashMap.update_convs size_mset)
  qed
  moreover have "rehash H h m n = Some (h', ?m')"
    using s'(1) hd by (simp add: rehash_def)
  ultimately show ?thesis using fin(2,3) by blast
qed

lemma addrs_less: "table H h m bs \<Longrightarrow> a \<in> addrs bs \<Longrightarrow> a < length h"
  by (fastforce simp: table_def addrs_def in_set_conv_nth[of _ bs] dest: chain_less)

lemma map_of_mset_eq:
  assumes "distinct (map fst xs)" "mset xs = mset ys"
  shows "map_of xs = map_of ys"
proof -
  have "distinct (map fst ys)" using distinct_mset_eq[OF assms(2) assms(1)] .
  moreover have "set xs = set ys" using assms(2) by (rule mset_eq_setD)
  ultimately show ?thesis using assms(1) by (simp add: map_of_inject_set)
qed

lemma mset_entries: "mset (entries bs) = image_mset snd (mset (concat bs))"
  by (simp add: entries_def)

lemma table_frame:
  assumes "table H h m bs" "frame h h' A" "addrs bs \<inter> A = {}"
  shows "table H h' m bs"
proof -
  have eq: "deref h' a = deref h a" if "a \<in> addrs bs" for a
    using assms addrs_less[OF assms(1) that] that by (auto simp: frame_def)
  have "chain h' (data m ! i) (bs ! i)" if "i < capacity m" for i
  proof (rule chain_heap_cong[of h])
    show "chain h (data m ! i) (bs ! i)" using assms(1) that by (simp add: table_def)
    fix e assume "e \<in> set (bs ! i)"
    then have "fst e \<in> addrs bs" using that assms(1) by (force simp: addrs_def table_def)
    then show "deref h' (fst e) = deref h (fst e)" by (rule eq)
  qed
  then show ?thesis using assms(1) by (simp add: table_def)
qed

lemma insert_present:
  assumes "table H h m bs" "dict bs k = Some v0"
  shows "insert_hm H h m k v = Some (h, m)"
proof -
  let ?i = "H k mod capacity m"
  let ?es = "bs ! ?i"
  note sc = table_scan[OF assms(1), of k]
  have fn: "find_node h k (data m ! ?i) =
      Some (case find (\<lambda>e. fst (snd e) = k) ?es of None \<Rightarrow> nullptr | Some e \<Rightarrow> Node (fst e))"
    using sc(3) by (rule find_node_chain)
  have lk: "dict bs k = map_option (snd \<circ> snd) (find (\<lambda>e. fst (snd e) = k) ?es)"
    using table_bucket_lookup[OF assms(1), of k] find_map_of[of ?es k] by (simp add: dict_def)
  show ?thesis
    using sc fn lk assms(2) by (cases "find (\<lambda>e. fst (snd e) = k) ?es") (simp_all add: insert_hm_def)
qed

lemma insert_absent_step:
  fixes k :: 'k and v :: 'v
  assumes t: "table H h m bs" and abs: "dict bs k = None"
  defines "i \<equiv> H k mod capacity m"
  defines "h1 \<equiv> h @ [Some \<lparr>key = k, val = v, nxt = data m ! i\<rparr>]"
  defines "m1 \<equiv> m\<lparr>data := (data m)[i := Node (length h)], sz := sz m + 1\<rparr>"
  defines "bs1 \<equiv> bs[i := (length h, k, v) # bs ! i]"
  shows "table H h1 m1 bs1"
    and "insert_hm H h m k v =
           (if load_factor m1 > 1.5 then rehash H h1 m1 (capacity m1 * 2) else Some (h1, m1))"
    and "mset (concat bs1) = add_mset (length h, k, v) (mset (concat bs))"
proof -
  let ?es = "bs ! i"
  note sc = table_scan[OF t, of k, folded i_def]
  from t have len: "length bs = capacity m" "length (data m) = capacity m"
    and ch: "\<forall>j<capacity m. chain h (data m ! j) (bs ! j)"
    and pl: "\<forall>j<capacity m. \<forall>e\<in>set (bs ! j). H (fst (snd e)) mod capacity m = j"
    and da: "distinct (map fst (concat bs))"
    and dk: "distinct (map fst (entries bs))"
    and sz: "sz m = length (concat bs)"
    by (auto simp: table_def)
  have i: "i < length bs" using sc(4) len by simp
  show ms: "mset (concat bs1) = add_mset (length h, k, v) (mset (concat bs))"
    unfolding bs1_def using i by (rule mset_concat_update)
  have fn: "find_node h k (data m ! i) =
      Some (case find (\<lambda>e. fst (snd e) = k) ?es of None \<Rightarrow> nullptr | Some e \<Rightarrow> Node (fst e))"
    using sc(3) by (rule find_node_chain)
  have lk: "dict bs k = map_option (snd \<circ> snd) (find (\<lambda>e. fst (snd e) = k) ?es)"
    using table_bucket_lookup[OF t, of k] find_map_of[of ?es k] by (simp add: dict_def i_def)
  with abs have nf: "find (\<lambda>e. fst (snd e) = k) ?es = None" by simp
  show "insert_hm H h m k v =
           (if load_factor m1 > 1.5 then rehash H h1 m1 (capacity m1 * 2) else Some (h1, m1))"
    using sc fn nf len
    by (simp add: insert_hm_def i_def[symmetric] new_ChainNode_def bucket_set_def
        h1_def m1_def)
  have fr: "frame h h1 {}"
    by (auto simp: frame_def h1_def deref_append)
  have t1: "table H h1 m bs"
    using table_frame[OF t fr] by simp
  have fresh: "length h \<notin> addrs bs"
    using addrs_less[OF t] by blast
  have knew: "k \<notin> fst ` set (entries bs)"
    using abs by (simp add: dict_def map_of_eq_None_iff)
  show "table H h1 m1 bs1"
    unfolding table_def
  proof (intro conjI allI impI ballI)
    show "0 < capacity m1" using sc(4) by (simp add: m1_def)
    show "length (data m1) = capacity m1" using len by (simp add: m1_def)
    show "length bs1 = capacity m1" using len by (simp add: m1_def bs1_def)
    show "distinct (map fst (concat bs1))"
    proof -
      have "mset (map fst (concat bs1)) = mset (map fst ((length h, k, v) # concat bs))"
        using arg_cong[OF ms, of "image_mset fst"] by simp
      moreover have "distinct (map fst ((length h, k, v) # concat bs))"
        using da fresh by (simp add: addrs_def)
      ultimately show ?thesis by (metis mset_eq_imp_distinct_iff)
    qed
    show "distinct (map fst (entries bs1))"
    proof -
      have "mset (map fst (entries bs1)) = mset (map fst ((k, v) # entries bs))"
        using arg_cong[OF ms, of "image_mset (fst \<circ> snd)"] by (simp add: entries_def)
      moreover have "distinct (map fst ((k, v) # entries bs))"
        using dk knew by simp
      ultimately show ?thesis by (metis mset_eq_imp_distinct_iff)
    qed
    show "sz m1 = length (concat bs1)"
    proof -
      have "size (mset (concat bs1)) = Suc (size (mset (concat bs)))" using ms by simp
      then show ?thesis using sz by (simp add: m1_def)
    qed
  next
    fix j assume "j < capacity m1"
    then have j: "j < capacity m" by (simp add: m1_def)
    have old: "chain h1 (data m ! j) (bs ! j)"
      using t1 j by (simp add: table_def)
    show "chain h1 (data m1 ! j) (bs1 ! j)"
    proof (cases "j = i")
      case True
      then show ?thesis using old i len
        by (simp add: m1_def bs1_def) (simp add: h1_def deref_append)
    next
      case False
      then show ?thesis using old by (simp add: m1_def bs1_def)
    qed
    fix e assume "e \<in> set (bs1 ! j)"
    then show "H (fst (snd e)) mod capacity m1 = j"
      using pl j i by (cases "j = i") (auto simp: bs1_def m1_def i_def)
  qed
qed

lemma dict_mset_eq:
  "distinct (map fst (entries bs)) \<Longrightarrow> mset (concat bs) = mset (concat bs') \<Longrightarrow> dict bs = dict bs'"
  unfolding dict_def by (rule map_of_mset_eq) (simp_all add: mset_entries)

lemma addrs_mset_eq: "mset (concat bs) = mset (concat bs') \<Longrightarrow> addrs bs = addrs bs'"
  unfolding addrs_def by (metis mset_eq_setD)

lemma table_sz_card:
  assumes "table H h m bs"
  shows "sz m = card (dom (dict bs))"
proof -
  from assms have dk: "distinct (map fst (entries bs))" and sz: "sz m = length (concat bs)"
    by (auto simp: table_def)
  have "card (dom (dict bs)) = card (set (map fst (entries bs)))"
    by (simp add: dict_def dom_map_of_conv_image_fst)
  also have "\<dots> = length (map fst (entries bs))" using dk by (rule distinct_card)
  finally show ?thesis using sz by (simp add: entries_def)
qed

lemma load_factor_exceeds:
  "0 < capacity m \<Longrightarrow> (load_factor m > 1.5) = (3 * capacity m < 2 * sz m)"
proof -
  assume c: "0 < capacity m"
  have "(load_factor m > 1.5) = (3 / 2 < real (sz m) / real (capacity m))"
    by (simp add: load_factor_def)
  also have "\<dots> = (3 * real (capacity m) < 2 * real (sz m))"
    using c by (simp add: field_simps)
  also have "\<dots> = (real (3 * capacity m) < real (2 * sz m))" by simp
  also have "\<dots> = (3 * capacity m < 2 * sz m)" by (rule of_nat_less_iff)
  finally show ?thesis .
qed

lemma insert_table:
  assumes t: "table H h m bs"
  shows "\<exists>h' m' bs'. insert_hm H h m k v = Some (h', m') \<and> table H h' m' bs'
     \<and> dict bs' = (case dict bs k of None \<Rightarrow> (dict bs)(k \<mapsto> v) | Some w \<Rightarrow> dict bs)
     \<and> sz m' = (if k \<in> dom (dict bs) then sz m else sz m + 1)
     \<and> capacity m' = (if k \<notin> dom (dict bs) \<and> 3 * capacity m < 2 * (sz m + 1)
                       then capacity m * 2 else capacity m)
     \<and> frame h h' (addrs bs) \<and> addrs bs' \<subseteq> addrs bs \<union> {length h..<length h'}
     \<and> (k \<in> dom (dict bs) \<longrightarrow> h' = h \<and> m' = m)
     \<and> curr m' = curr m \<and> curr_idx m' = curr_idx m"
proof (cases "dict bs k")
  case (Some w)
  have "insert_hm H h m k v = Some (h, m)" using t Some by (rule insert_present)
  moreover have "frame h h (addrs bs)" by (simp add: frame_def)
  ultimately show ?thesis using t Some by (intro exI[of _ h] exI[of _ m] exI[of _ bs]) auto
next
  case None
  define i where "i = H k mod capacity m"
  define h1 where "h1 = h @ [Some \<lparr>key = k, val = v, nxt = data m ! i\<rparr>]"
  define m1 where "m1 = m\<lparr>data := (data m)[i := Node (length h)], sz := sz m + 1\<rparr>"
  define bs1 where "bs1 = bs[i := (length h, k, v) # bs ! i]"
  note st = insert_absent_step[OF t None, of v, folded i_def, folded h1_def m1_def bs1_def]
  from t have dk: "distinct (map fst (entries bs))" and cap: "0 < capacity m"
    by (auto simp: table_def)
  have ms1: "mset (concat bs1) = mset ((length h, k, v) # concat bs)" using st(3) by simp
  have dk1: "distinct (map fst (entries bs1))" using st(1) by (simp add: table_def)
  have d1: "dict bs1 = (dict bs)(k \<mapsto> v)"
  proof -
    have "mset (entries bs1) = mset ((k, v) # entries bs)"
      using st(3) by (simp add: mset_entries)
    from map_of_mset_eq[OF dk1 this] show ?thesis by (simp add: dict_def)
  qed
  have a1: "addrs bs1 = insert (length h) (addrs bs)"
    using mset_eq_setD[OF ms1] by (simp add: addrs_def)
  have fr1: "frame h h1 (addrs bs)" by (auto simp: frame_def h1_def deref_append)
  have lf: "(load_factor m1 > 1.5) = (3 * capacity m < 2 * (sz m + 1))"
    using load_factor_exceeds[of m1] cap by (simp add: m1_def)
  show ?thesis
  proof (cases "3 * capacity m < 2 * (sz m + 1)")
    case False
    then have "insert_hm H h m k v = Some (h1, m1)" using st(2) lf by simp
    then show ?thesis using st(1) d1 a1 fr1 None False
      by (intro exI[of _ h1] exI[of _ m1] exI[of _ bs1])
         (auto simp: m1_def h1_def domIff)
  next
    case True
    have n: "0 < capacity m1 * 2" using cap by (simp add: m1_def)
    from rehash_table[OF st(1) n] obtain h' d' where
      r: "rehash H h1 m1 (capacity m1 * 2) = Some (h', m1\<lparr>data := d', capacity := capacity m1 * 2\<rparr>)"
         "table H h' (m1\<lparr>data := d', capacity := capacity m1 * 2\<rparr>)
            (foldl (push H (capacity m1 * 2)) (replicate (capacity m1 * 2) []) (concat bs1))"
         "length h' = length h1" "\<forall>a. a \<notin> addrs bs1 \<longrightarrow> deref h' a = deref h1 a"
      by blast
    let ?m' = "m1\<lparr>data := d', capacity := capacity m1 * 2\<rparr>"
    let ?bs' = "foldl (push H (capacity m1 * 2)) (replicate (capacity m1 * 2) []) (concat bs1)"
    have ms': "mset (concat bs1) = mset (concat ?bs')"
      using n by (simp add: mset_foldl_push)
    have "insert_hm H h m k v = Some (h', ?m')" using st(2) lf True r(1) by simp
    moreover have "dict ?bs' = (dict bs)(k \<mapsto> v)"
      using dict_mset_eq[OF dk1 ms'] d1 by simp
    moreover have "addrs ?bs' = insert (length h) (addrs bs)"
      using addrs_mset_eq[OF ms'] a1 by simp
    moreover have "frame h h' (addrs bs)"
      using r(3,4) a1 by (auto simp: frame_def h1_def deref_append)
    moreover have "length h' = Suc (length h)" using r(3) by (simp add: h1_def)
    ultimately show ?thesis using r(2) None True
      by (intro exI[of _ h'] exI[of _ ?m'] exI[of _ ?bs'])
         (auto simp: m1_def domIff)
  qed
qed

lemma table_fresh: "0 < n \<Longrightarrow> table H h (HashMap_capacity n) (replicate n [])"
  by (simp add: table_def HashMap_capacity_def entries_def)

lemma erase_loop_absent:
  "chain h current es \<Longrightarrow> find (\<lambda>e. fst (snd e) = k) es = None \<Longrightarrow>
   erase_loop h m i k current prev = Some (Inl out_of_range, h, m)"
proof (induction es arbitrary: current prev)
  case Nil
  then show ?case by (simp add: erase_loop.simps)
next
  case (Cons e es)
  from Cons.prems obtain nd where nd: "deref h (fst e) = Some nd" "current = Node (fst e)"
      "key nd = fst (snd e)" "chain h (nxt nd) es" "fst (snd e) \<noteq> k"
      "find (\<lambda>e. fst (snd e) = k) es = None"
    by (auto split: option.splits if_splits)
  have "erase_loop h m i k (nxt nd) (Node (fst e)) = Some (Inl out_of_range, h, m)"
    using nd(4,6) by (rule Cons.IH)
  then show ?case using nd by (subst erase_loop.simps) simp
qed

lemma filter_other_addr:
  "a \<notin> fst ` set es \<Longrightarrow> filter (\<lambda>e. fst e \<noteq> a) es = es"
  by (induction es) auto

lemma chain_update_other:
  assumes "chain h p es" "a \<notin> fst ` set es"
  shows "chain (h[a := x]) p es"
proof (rule chain_heap_cong[OF assms(1)])
  fix e assume "e \<in> set es"
  then have "fst e \<noteq> a" using assms(2) by auto
  then show "deref (h[a := x]) (fst e) = deref h (fst e)" by (simp add: deref_update)
qed

lemma erase_loop_found:
  assumes "chain h current es" "distinct (map fst es)"
    and "incoming h (data m) i prev = Some current"
    and "\<forall>p. prev = Node p \<longrightarrow> p \<notin> fst ` set es"
    and "find (\<lambda>e. fst (snd e) = k) es = Some (a, k', v)"
  shows "\<exists>h' d'. erase_loop h m i k current prev = Some (Inr v, h', m\<lparr>data := d', sz := sz m - 1\<rparr>)
      \<and> length h' = length h
      \<and> (\<exists>q. incoming h' d' i prev = Some q \<and> chain h' q (filter (\<lambda>e. fst e \<noteq> a) es))
      \<and> (\<forall>p np. prev = Node p \<longrightarrow> deref h p = Some np
            \<longrightarrow> (\<exists>q. deref h' p = Some (np\<lparr>nxt := q\<rparr>)) \<and> d' = data m)
      \<and> (prev = nullptr \<longrightarrow> (\<exists>q. d' = (data m)[i := q]))
      \<and> deref h' a = None
      \<and> (\<forall>b. b \<notin> fst ` set es \<longrightarrow> prev \<noteq> Node b \<longrightarrow> deref h' b = deref h b)"
  using assms
proof (induction es arbitrary: current prev)
  case Nil
  then show ?case by simp
next
  case (Cons e es)
  obtain a0 k0 v0 where e: "e = (a0, k0, v0)" by (cases e)
  from Cons.prems(1) e obtain nd where nd: "deref h a0 = Some nd" "current = Node a0"
      "key nd = k0" "val nd = v0" "chain h (nxt nd) es"
    by (auto split: option.splits)
  have a0: "a0 \<notin> fst ` set es" using Cons.prems(2) e by auto
  have a0lt: "a0 < length h" using nd(1) by (rule deref_less)
  show ?case
  proof (cases "k0 = k")
    case True
    then have av: "a = a0" "v = v0" using Cons.prems(5) e by auto
    have flt: "filter (\<lambda>x. fst x \<noteq> a) (e # es) = es"
      using a0 e av by (simp add: filter_other_addr)
    show ?thesis
    proof (cases prev)
      case nullptr
      then have i: "i < length (data m)" "data m ! i = current"
        using Cons.prems(3) by (auto simp: incoming_def bucket_at_def split: if_splits)
      let ?h' = "h[a0 := None]"
      let ?d' = "(data m)[i := nxt nd]"
      have run: "erase_loop h m i k current prev = Some (Inr v, ?h', m\<lparr>data := ?d', sz := sz m - 1\<rparr>)"
        using nd True nullptr i av
        by (subst erase_loop.simps) (simp add: bucket_set_def delete_node_def)
      have "chain ?h' (nxt nd) es"
        using nd(5) a0 by (rule chain_update_other)
      then show ?thesis
        unfolding flt using run nullptr i av a0lt e
        by (intro exI[of _ ?h'] exI[of _ ?d'])
           (auto simp: incoming_def bucket_at_def deref_update)
    next
      case (Node p)
      then obtain np where np: "deref h p = Some np" "nxt np = current"
        using Cons.prems(3) by (auto simp: incoming_def)
      have pa: "p \<noteq> a0" "p \<notin> fst ` set es" using Cons.prems(4) Node e by auto
      have plt: "p < length h" using np(1) by (rule deref_less)
      let ?h1 = "h[p := Some (np\<lparr>nxt := nxt nd\<rparr>)]"
      let ?h' = "?h1[a0 := None]"
      have run: "erase_loop h m i k current prev = Some (Inr v, ?h', m\<lparr>data := data m, sz := sz m - 1\<rparr>)"
        using nd True Node np pa av
        by (subst erase_loop.simps) (simp add: set_next_def delete_node_def deref_update)
      have "chain ?h' (nxt nd) es"
        using nd(5) a0 pa by (intro chain_update_other)
      then show ?thesis
        unfolding flt using run Node np pa av a0lt plt e
        by (intro exI[of _ ?h'] exI[of _ "data m"])
           (auto simp: incoming_def deref_update)
    qed
  next
    case False
    then have fnd: "find (\<lambda>e. fst (snd e) = k) es = Some (a, k', v)"
      using Cons.prems(5) e by simp
    then have ain: "a \<in> fst ` set es" by (force dest: find_in_set)
    then have ne: "a \<noteq> a0" using a0 by auto
    have inc: "incoming h (data m) i (Node a0) = Some (nxt nd)"
      using nd(1) by (simp add: incoming_def)
    from Cons.IH[OF nd(5) _ inc _ fnd] Cons.prems(2) a0 nd(1)
    obtain h' d' q where r:
      "erase_loop h m i k (nxt nd) (Node a0) = Some (Inr v, h', m\<lparr>data := d', sz := sz m - 1\<rparr>)"
      "length h' = length h"
      "incoming h' d' i (Node a0) = Some q" "chain h' q (filter (\<lambda>e. fst e \<noteq> a) es)"
      "\<exists>q. deref h' a0 = Some (nd\<lparr>nxt := q\<rparr>)" "d' = data m"
      "deref h' a = None"
      "\<forall>b. b \<notin> fst ` set es \<longrightarrow> Node a0 \<noteq> Node b \<longrightarrow> deref h' b = deref h b"
      by auto
    have run: "erase_loop h m i k current prev = Some (Inr v, h', m\<lparr>data := d', sz := sz m - 1\<rparr>)"
      using nd False r(1) by (subst erase_loop.simps) simp
    have "deref h' a0 = Some (nd\<lparr>nxt := q\<rparr>)"
      using r(3,5) by (auto simp: incoming_def)
    then have ch: "chain h' current (filter (\<lambda>x. fst x \<noteq> a) (e # es))"
      using r(4) nd e ne by simp
    have same: "deref h' b = deref h b" if "b \<notin> fst ` set (e # es)" for b
      using r(8) that e by auto
    have inc': "incoming h' d' i prev = Some current"
    proof (cases prev)
      case nullptr
      then show ?thesis using Cons.prems(3) r(6) by (simp add: incoming_def)
    next
      case (Node p)
      then have "deref h' p = deref h p" using Cons.prems(4) same by simp
      then show ?thesis using Cons.prems(3) Node by (simp add: incoming_def)
    qed
    have c4: "(\<exists>q. deref h' p = Some (np\<lparr>nxt := q\<rparr>)) \<and> d' = data m"
      if "prev = Node p" "deref h p = Some np" for p np
    proof -
      have "deref h' p = deref h p" using Cons.prems(4) same that(1) by simp
      then have "deref h' p = Some (np\<lparr>nxt := nxt np\<rparr>)" using that(2) by simp
      then show ?thesis using r(6) by blast
    qed
    have c5: "\<exists>q. d' = (data m)[i := q]"
      using r(6) by (intro exI[of _ "data m ! i"]) simp
    show ?thesis
      using run r(2,7) ch inc' c4 c5 same by (intro exI[of _ h'] exI[of _ d']) blast
  qed
qed

lemma mset_filter_addr:
  "distinct (map fst es) \<Longrightarrow> e \<in> set es \<Longrightarrow>
   mset es = add_mset e (mset (filter (\<lambda>x. fst x \<noteq> fst e) es))"
proof (induction es)
  case Nil
  then show ?case by simp
next
  case (Cons x es)
  show ?case
  proof (cases "x = e")
    case True
    then have "fst e \<notin> fst ` set es" using Cons.prems(1) by auto
    then show ?thesis using True by (simp add: filter_other_addr)
  next
    case False
    then have "e \<in> set es" using Cons.prems(2) by simp
    then have "fst x \<noteq> fst e" using Cons.prems(1) by force
    then show ?thesis using Cons \<open>e \<in> set es\<close> by simp
  qed
qed

lemma mset_concat_update_gen:
  "j < length bs \<Longrightarrow> mset (concat (bs[j := es])) + mset (bs ! j) = mset (concat bs) + mset es"
  by (induction bs arbitrary: j) (auto simp: nth_Cons split: nat.splits)

lemma distinct_add_mset:
  assumes "mset xs = add_mset x (mset ys)" "distinct (map f xs)"
  shows "distinct (map f ys)" "f x \<notin> f ` set ys"
proof -
  have "mset xs = mset (x # ys)" using assms(1) by simp
  from distinct_mset_eq[OF this assms(2)] show "distinct (map f ys)" "f x \<notin> f ` set ys"
    by auto
qed

lemma bucket_addrs_disjoint:
  assumes "distinct (map fst (concat bs))" "i < length bs" "j < length bs" "i \<noteq> j"
    "e \<in> set (bs ! j)"
  shows "fst e \<notin> fst ` set (bs ! i)"
proof (cases "i < j")
  case True
  then show ?thesis using distinct_concat_disjoint[OF assms(1) True assms(3) _ assms(5)] by force
next
  case False
  then have "j < i" using assms(4) by simp
  then show ?thesis using distinct_concat_disjoint[OF assms(1) _ assms(2) assms(5)] by force
qed

lemma erase_table_absent:
  assumes t: "table H h m bs" and abs: "dict bs k = None"
  shows "erase H h m k = Some (Inl out_of_range, h, m)"
proof -
  let ?i = "H k mod capacity m"
  note sc = table_scan[OF t, of k]
  have "dict bs k = map_option (snd \<circ> snd) (find (\<lambda>e. fst (snd e) = k) (bs ! ?i))"
    using table_bucket_lookup[OF t, of k] find_map_of[of "bs ! ?i" k] by (simp add: dict_def)
  with abs have "find (\<lambda>e. fst (snd e) = k) (bs ! ?i) = None" by simp
  from erase_loop_absent[OF sc(3) this] show ?thesis using sc by (simp add: erase_def)
qed

lemma erase_table_present:
  assumes t: "table H h m bs" and pres: "dict bs k = Some v"
  shows "\<exists>h' m' bs'. erase H h m k = Some (Inr v, h', m') \<and> table H h' m' bs'
     \<and> dict bs' = (dict bs)(k := None)
     \<and> sz m' + 1 = sz m \<and> capacity m' = capacity m
     \<and> frame h h' (addrs bs) \<and> length h' = length h \<and> addrs bs' \<subseteq> addrs bs
     \<and> curr m' = curr m \<and> curr_idx m' = curr_idx m"
proof -
  let ?i = "H k mod capacity m"
  let ?es = "bs ! ?i"
  note sc = table_scan[OF t, of k]
  from t have len: "length bs = capacity m" "length (data m) = capacity m"
    and ch: "\<forall>j<capacity m. chain h (data m ! j) (bs ! j)"
    and pl: "\<forall>j<capacity m. \<forall>e\<in>set (bs ! j). H (fst (snd e)) mod capacity m = j"
    and da: "distinct (map fst (concat bs))"
    and dk: "distinct (map fst (entries bs))"
    and sz: "sz m = length (concat bs)"
    by (auto simp: table_def)
  have i: "?i < length bs" using sc(4) len by simp
  have "dict bs k = map_option (snd \<circ> snd) (find (\<lambda>e. fst (snd e) = k) ?es)"
    using table_bucket_lookup[OF t, of k] find_map_of[of ?es k] by (simp add: dict_def)
  with pres obtain a k' where fnd: "find (\<lambda>e. fst (snd e) = k) ?es = Some (a, k', v)"
    by (cases "find (\<lambda>e. fst (snd e) = k) ?es") auto
  then have ein: "(a, k', v) \<in> set ?es" and k': "k' = k" by (auto dest: find_in_set)
  have dai: "distinct (map fst ?es)" using da i by (rule distinct_concat_nth)
  have inc: "incoming h (data m) ?i nullptr = Some (data m ! ?i)"
    using sc(2) by (simp add: incoming_def)
  from erase_loop_found[OF sc(3) dai inc _ fnd]
  obtain h' d' q where r:
    "erase_loop h m ?i k (data m ! ?i) nullptr = Some (Inr v, h', m\<lparr>data := d', sz := sz m - 1\<rparr>)"
    "length h' = length h"
    "incoming h' d' ?i nullptr = Some q" "chain h' q (filter (\<lambda>e. fst e \<noteq> a) ?es)"
    "\<exists>q. d' = (data m)[?i := q]"
    "\<forall>b. b \<notin> fst ` set ?es \<longrightarrow> deref h' b = deref h b"
    by auto
  let ?m' = "m\<lparr>data := d', sz := sz m - 1\<rparr>"
  let ?bs' = "bs[?i := filter (\<lambda>e. fst e \<noteq> a) ?es]"
  have d'i: "d' ! ?i = q" "length d' = capacity m"
    using r(3,5) len by (auto simp: incoming_def bucket_at_def split: if_splits)
  have d'j: "d' ! j = data m ! j" if "j \<noteq> ?i" for j using r(5) that by auto
  have ms: "mset (concat bs) = add_mset (a, k', v) (mset (concat ?bs'))"
  proof -
    define F where "F = mset (filter (\<lambda>e. fst e \<noteq> a) ?es)"
    have 1: "mset (concat ?bs') + mset ?es = mset (concat bs) + F"
      unfolding F_def using i by (rule mset_concat_update_gen)
    have 2: "mset ?es = add_mset (a, k', v) F"
      unfolding F_def using mset_filter_addr[OF dai ein] by simp
    have "mset (concat ?bs') + add_mset (a, k', v) F = mset (concat bs) + F"
      using 1 unfolding 2 .
    then show ?thesis by simp
  qed
  have run: "erase H h m k = Some (Inr v, h', ?m')" using r(1) sc by (simp add: erase_def)
  have t': "table H h' ?m' ?bs'"
    unfolding table_def
  proof (intro conjI allI impI ballI)
    show "0 < capacity ?m'" using sc(4) by simp
    show "length (data ?m') = capacity ?m'" using d'i by simp
    show "length ?bs' = capacity ?m'" using len by simp
    show "distinct (map fst (concat ?bs'))" using distinct_add_mset(1)[OF ms da] .
    show "distinct (map fst (entries ?bs'))"
      using distinct_add_mset(1)[OF ms, of "fst \<circ> snd"] dk by (simp add: entries_def)
    show "sz ?m' = length (concat ?bs')"
    proof -
      have "size (mset (concat bs)) = Suc (size (mset (concat ?bs')))" using ms by simp
      then show ?thesis using sz by simp
    qed
  next
    fix j assume "j < capacity ?m'"
    then have j: "j < capacity m" by simp
    show "chain h' (data ?m' ! j) (?bs' ! j)"
    proof (cases "j = ?i")
      case True
      then show ?thesis using r(4) d'i i by simp
    next
      case False
      have "chain h' (data m ! j) (bs ! j)"
      proof (rule chain_heap_cong[of h])
        show "chain h (data m ! j) (bs ! j)" using ch j by simp
        fix e assume "e \<in> set (bs ! j)"
        then have "fst e \<notin> fst ` set ?es"
          using bucket_addrs_disjoint[OF da i _ _, of j e] j len False by auto
        then show "deref h' (fst e) = deref h (fst e)" using r(6) by simp
      qed
      then show ?thesis using False d'j by simp
    qed
    fix e assume "e \<in> set (?bs' ! j)"
    then have "e \<in> set (bs ! j)" using i by (cases "j = ?i") auto
    then show "H (fst (snd e)) mod capacity ?m' = j" using pl j by simp
  qed
  have sub: "addrs ?bs' \<subseteq> addrs bs"
  proof -
    have "set (concat ?bs') \<subseteq> set (concat bs)"
      using mset_eq_setD[of "concat bs" "(a, k', v) # concat ?bs'"] ms by auto
    then show ?thesis unfolding addrs_def by (rule image_mono)
  qed
  have d: "dict ?bs' = (dict bs)(k := None)"
  proof -
    have "mset (entries bs) = mset ((k, v) # entries ?bs')"
      using ms k' by (simp add: mset_entries)
    from map_of_mset_eq[OF dk this] have 1: "dict bs = (dict ?bs')(k \<mapsto> v)"
      by (simp add: dict_def)
    have "fst (snd (a, k', v)) \<notin> (fst \<circ> snd) ` set (concat ?bs')"
      using distinct_add_mset(2)[OF ms, of "fst \<circ> snd"] dk by (simp add: entries_def)
    then have "k \<notin> fst ` set (entries ?bs')" using k' by (simp add: entries_def image_comp)
    then have "dict ?bs' k = None" by (simp add: dict_def map_of_eq_None_iff)
    then show ?thesis using 1 by auto
  qed
  have fr: "frame h h' (addrs bs)"
  proof -
    have "deref h' b = deref h b" if "b \<notin> addrs bs" for b
    proof -
      have "b \<notin> fst ` set ?es" using that i by (force simp: addrs_def)
      then show ?thesis using r(6) by simp
    qed
    then show ?thesis using r(2) by (simp add: frame_def)
  qed
  have "sz ?m' + 1 = sz m"
  proof -
    have "size (mset (concat bs)) = Suc (size (mset (concat ?bs')))" using ms by simp
    then show ?thesis using sz by simp
  qed
  then show ?thesis using run t' d fr r(2) sub
    by (intro exI[of _ h'] exI[of _ ?m'] exI[of _ ?bs']) simp
qed

lemma clear_chain_chain:
  "chain h p es \<Longrightarrow> distinct (map fst es) \<Longrightarrow>
   \<exists>h'. clear_chain h p = Some h' \<and> length h' = length h
     \<and> (\<forall>b. b \<notin> fst ` set es \<longrightarrow> deref h' b = deref h b)
     \<and> (\<forall>b\<in>fst ` set es. deref h' b = None)"
proof (induction es arbitrary: h p)
  case Nil
  then show ?case by (simp add: clear_chain.simps)
next
  case (Cons e es)
  from Cons.prems(1) obtain nd where nd: "deref h (fst e) = Some nd" "p = Node (fst e)"
      "chain h (nxt nd) es"
    by (auto split: option.splits)
  have a: "fst e \<notin> fst ` set es" using Cons.prems(2) by auto
  have alt: "fst e < length h" using nd(1) by (rule deref_less)
  let ?h1 = "h[fst e := None]"
  have "chain ?h1 (nxt nd) es" using nd(3) a by (rule chain_update_other)
  from Cons.IH[OF this] Cons.prems(2) obtain h' where r:
    "clear_chain ?h1 (nxt nd) = Some h'" "length h' = length ?h1"
    "\<forall>b. b \<notin> fst ` set es \<longrightarrow> deref h' b = deref ?h1 b"
    "\<forall>b\<in>fst ` set es. deref h' b = None"
    by auto
  have "clear_chain h p = Some h'"
    using nd r(1) by (subst clear_chain.simps) (simp add: delete_node_def)
  moreover have "deref h' (fst e) = None" using r(3) a alt by (simp add: deref_update)
  moreover have "\<forall>b. b \<notin> fst ` set (e # es) \<longrightarrow> deref h' b = deref h b"
    using r(3) by (simp add: deref_update)
  ultimately show ?case using r(2,4) by simp
qed

lemma clear_table:
  assumes t: "table H h m bs"
  shows "\<exists>h'. clear h m = Some (h', m\<lparr>data := replicate (capacity m) nullptr, sz := 0\<rparr>)
     \<and> table H h' (m\<lparr>data := replicate (capacity m) nullptr, sz := 0\<rparr>)
          (replicate (capacity m) [])
     \<and> frame h h' (addrs bs) \<and> length h' = length h"
proof -
  let ?c = "capacity m"
  let ?body = "\<lambda>i s. do { current \<leftarrow> bucket_at (snd s) i;
                        h' \<leftarrow> clear_chain (fst s) current;
                        d' \<leftarrow> bucket_set (snd s) i nullptr;
                        Some (h', d') }"
  define I where "I = (\<lambda>j (s :: ('a, 'b) heap \<times> pointer list).
     length (snd s) = ?c
     \<and> (\<forall>i<j. snd s ! i = nullptr)
     \<and> (\<forall>i. j \<le> i \<and> i < ?c \<longrightarrow> snd s ! i = data m ! i)
     \<and> (\<forall>i. j \<le> i \<and> i < ?c \<longrightarrow> chain (fst s) (data m ! i) (bs ! i))
     \<and> length (fst s) = length h
     \<and> (\<forall>a. a \<notin> addrs bs \<longrightarrow> deref (fst s) a = deref h a))"
  from t have len: "length bs = ?c" "length (data m) = ?c" and cap: "0 < ?c"
    and ch: "\<forall>i<?c. chain h (data m ! i) (bs ! i)"
    and da: "distinct (map fst (concat bs))"
    by (auto simp: table_def)
  have I0: "I 0 (h, data m)" using len ch by (simp add: I_def)
  have step: "\<exists>s'. ?body j s = Some s' \<and> I (Suc j) s'" if "0 \<le> j" "j < ?c" "I j s" for j s
  proof -
    obtain hj dj where s: "s = (hj, dj)" by (cases s)
    from that(3) s have c0: "length dj = ?c"
      and c1: "\<forall>i<j. dj ! i = nullptr"
      and c2: "\<forall>i. j \<le> i \<and> i < ?c \<longrightarrow> dj ! i = data m ! i"
      and c3: "\<forall>i. j \<le> i \<and> i < ?c \<longrightarrow> chain hj (data m ! i) (bs ! i)"
      and c4: "length hj = length h"
      and c5: "\<forall>a. a \<notin> addrs bs \<longrightarrow> deref hj a = deref h a"
      by (auto simp: I_def)
    have jl: "j < length bs" using that(2) len by simp
    have dj: "distinct (map fst (bs ! j))" using da jl by (rule distinct_concat_nth)
    have cj: "chain hj (data m ! j) (bs ! j)" using c3 that(2) by simp
    from clear_chain_chain[OF cj dj] obtain h' where r:
      "clear_chain hj (data m ! j) = Some h'" "length h' = length hj"
      "\<forall>b. b \<notin> fst ` set (bs ! j) \<longrightarrow> deref h' b = deref hj b"
      by auto
    have "?body j s = Some (h', dj[j := nullptr])"
      using r(1) c0 c2 that(2) s by (simp add: bucket_at_def bucket_set_def)
    moreover have "I (Suc j) (h', dj[j := nullptr])"
      unfolding I_def
    proof (intro conjI allI impI)
      show "length (snd (h', dj[j := nullptr])) = ?c" using c0 by simp
      show "snd (h', dj[j := nullptr]) ! i = nullptr" if "i < Suc j" for i
        using that c1 c0 \<open>j < ?c\<close> by (cases "i = j") auto
      show "snd (h', dj[j := nullptr]) ! i = data m ! i" if "Suc j \<le> i \<and> i < ?c" for i
        using that c2 by simp
      show "length (fst (h', dj[j := nullptr])) = length h" using r(2) c4 by simp
      show "deref (fst (h', dj[j := nullptr])) a = deref h a" if "a \<notin> addrs bs" for a
      proof -
        have "a \<notin> fst ` set (bs ! j)" using that jl by (force simp: addrs_def)
        then show ?thesis using r(3) c5 that by simp
      qed
      show "chain (fst (h', dj[j := nullptr])) (data m ! i) (bs ! i)"
        if "Suc j \<le> i \<and> i < ?c" for i
      proof (rule chain_heap_cong[of hj])
        show "chain hj (data m ! i) (bs ! i)" using c3 that by simp
        fix e assume e: "e \<in> set (bs ! i)"
        have "fst e \<notin> fst ` set (bs ! j)"
          using bucket_addrs_disjoint[OF da jl _ _ e] that len by simp
        then show "deref (fst (h', dj[j := nullptr])) (fst e) = deref hj (fst e)"
          using r(3) by simp
      qed
    qed
    ultimately show ?thesis by blast
  qed
  from for_loop_upt[of I 0 "(h, data m)" ?c ?body, OF I0 _ step]
  obtain s' where s': "for_loop [0..<?c] ?body (h, data m) = Some s'" "I ?c s'"
    by auto
  obtain h' d' where hd: "s' = (h', d')" by (cases s')
  from s'(2) hd have fin: "length d' = ?c" "\<forall>i<?c. d' ! i = nullptr" "length h' = length h"
      "\<forall>a. a \<notin> addrs bs \<longrightarrow> deref h' a = deref h a"
    by (auto simp: I_def)
  have d': "d' = replicate ?c nullptr"
    using fin(1,2) by (intro nth_equalityI) auto
  let ?m' = "m\<lparr>data := replicate ?c nullptr, sz := 0\<rparr>"
  have "clear h m = Some (h', ?m')" using s'(1) hd d' by (simp add: clear_def)
  moreover have "table H h' ?m' (replicate ?c [])"
    using cap by (simp add: table_def entries_def)
  moreover have "frame h h' (addrs bs)" using fin(3,4) by (simp add: frame_def)
  ultimately show ?thesis using fin(3) by blast
qed

lemma insert_all_table:
  assumes "table H h m bs"
  shows "\<exists>h' m' bs'. insert_all H h m kvs = Some (h', m') \<and> table H h' m' bs'
           \<and> dict bs' = map_of kvs ++ dict bs"
  using assms
proof (induction kvs arbitrary: h m bs)
  case Nil
  then show ?case by auto
next
  case (Cons kv kvs)
  obtain k v where kv: "kv = (k, v)" by (cases kv)
  from insert_table[OF Cons.prems, of k v] obtain h1 m1 bs1 where
    1: "insert_hm H h m k v = Some (h1, m1)" "table H h1 m1 bs1"
       "dict bs1 = (case dict bs k of None \<Rightarrow> (dict bs)(k \<mapsto> v) | Some w \<Rightarrow> dict bs)"
    by blast
  from Cons.IH[OF 1(2)] obtain h' m' bs' where
    2: "insert_all H h1 m1 kvs = Some (h', m')" "table H h' m' bs'"
       "dict bs' = map_of kvs ++ dict bs1"
    by blast
  have "map_of kvs ++ dict bs1 = map_of (kv # kvs) ++ dict bs"
    using 1(3) kv by (auto simp: map_add_def fun_eq_iff split: option.splits)
  then have "dict bs' = map_of (kv # kvs) ++ dict bs" using 2(3) by simp
  moreover have "insert_all H h m (kv # kvs) = Some (h', m')" using 1(1) 2(1) kv by simp
  ultimately show ?case using 2(2) by blast
qed

lemma dict_fresh [simp]: "dict (replicate n []) = Map.empty"
  by (simp add: dict_def entries_def)

lemma table_default: "table H h HashMap_default (replicate 10 [])"
  by (simp add: table_def HashMap_default_def entries_def)

lemma at_Inr_iff:
  "table H h m bs \<Longrightarrow> at_hm H h m k = Some (Inr v) \<longleftrightarrow> dict bs k = Some v"
  by (simp add: at_hm_table dict_def split: option.splits)

lemma at_Inl_iff:
  "table H h m bs \<Longrightarrow> at_hm H h m k = Some (Inl e) \<longleftrightarrow> dict bs k = None"
  by (cases e) (simp add: at_hm_table dict_def split: option.splits)

lemma contains_iff:
  "table H h m bs \<Longrightarrow> contains H h m k = Some b \<longleftrightarrow> (b \<longleftrightarrow> dict bs k \<noteq> None)"
  by (auto simp: contains_table dict_def)

lemma at_hm_at_ref:
  "at_hm H h m k = do {
     r \<leftarrow> at_ref H h m k;
     case r of Inl e \<Rightarrow> Some (Inl e)
     | Inr a \<Rightarrow> do { n \<leftarrow> deref h a; Some (Inr (val n)) } }"
  by (auto simp: at_hm_def at_ref_def split: Option.bind_splits pointer.splits)

lemma at_ref_table:
  assumes t: "table H h m bs"
  shows "dict bs k = None \<longrightarrow> at_ref H h m k = Some (Inl out_of_range)"
    and "dict bs k = Some v \<longrightarrow>
          (\<exists>a n. at_ref H h m k = Some (Inr a) \<and> (a, k, v) \<in> set (concat bs)
             \<and> deref h a = Some n \<and> key n = k \<and> val n = v)"
proof -
  let ?i = "H k mod capacity m"
  let ?es = "bs ! ?i"
  note sc = table_scan[OF t, of k]
  from t have len: "length bs = capacity m" by (simp add: table_def)
  have fn: "find_node h k (data m ! ?i) =
      Some (case find (\<lambda>e. fst (snd e) = k) ?es of None \<Rightarrow> nullptr | Some e \<Rightarrow> Node (fst e))"
    using sc(3) by (rule find_node_chain)
  have lk: "dict bs k = map_option (snd \<circ> snd) (find (\<lambda>e. fst (snd e) = k) ?es)"
    using table_bucket_lookup[OF t, of k] find_map_of[of ?es k] by (simp add: dict_def)
  show "dict bs k = None \<longrightarrow> at_ref H h m k = Some (Inl out_of_range)"
    using sc fn lk by (auto simp: at_ref_def)
  show "dict bs k = Some v \<longrightarrow>
          (\<exists>a n. at_ref H h m k = Some (Inr a) \<and> (a, k, v) \<in> set (concat bs)
             \<and> deref h a = Some n \<and> key n = k \<and> val n = v)"
  proof
    assume "dict bs k = Some v"
    with lk obtain e where e: "find (\<lambda>e. fst (snd e) = k) ?es = Some e" "snd (snd e) = v"
      by (cases "find (\<lambda>e. fst (snd e) = k) ?es") auto
    then have ein: "e \<in> set ?es" and ek: "fst (snd e) = k" by (auto dest: find_in_set)
    from chain_deref[OF sc(3) ein] obtain n where
      n: "deref h (fst e) = Some n" "key n = fst (snd e)" "val n = snd (snd e)" by auto
    have "e = (fst e, k, v)" using ek e(2) by (cases e) auto
    then have "(fst e, k, v) \<in> set (concat bs)" using ein sc(4) len by force
    moreover have "at_ref H h m k = Some (Inr (fst e))" using sc fn e(1) by (simp add: at_ref_def)
    ultimately show "\<exists>a n. at_ref H h m k = Some (Inr a) \<and> (a, k, v) \<in> set (concat bs)
             \<and> deref h a = Some n \<and> key n = k \<and> val n = v"
      using n ek e(2) by blast
  qed
qed

lemma set_val_sel [simp]:
  "fst (set_val a w e) = fst e"
  "fst (snd (set_val a w e)) = fst (snd e)"
  "snd (snd (set_val a w e)) = (if fst e = a then w else snd (snd e))"
  by (simp_all add: set_val_def)

lemma chain_set_val:
  "chain h p es \<Longrightarrow> deref h a = Some n \<Longrightarrow>
   chain (h[a := Some (n\<lparr>val := w\<rparr>)]) p (map (set_val a w) es)"
proof (induction es arbitrary: p)
  case Nil
  then show ?case by simp
next
  case (Cons e es)
  from Cons.prems(1) obtain nd where nd: "deref h (fst e) = Some nd" "p = Node (fst e)"
      "key nd = fst (snd e)" "val nd = snd (snd e)" "chain h (nxt nd) es"
    by (auto split: option.splits)
  have alt: "a < length h" using Cons.prems(2) by (rule deref_less)
  have rest: "chain (h[a := Some (n\<lparr>val := w\<rparr>)]) (nxt nd) (map (set_val a w) es)"
    using Cons.IH[OF nd(5) Cons.prems(2)] .
  show ?case
  proof (cases "fst e = a")
    case True
    then have "nd = n" using nd(1) Cons.prems(2) by simp
    then show ?thesis using True nd rest alt by (simp add: deref_update)
  next
    case False
    then show ?thesis using nd rest by (simp add: deref_update)
  qed
qed

lemma map_fst_set_val [simp]: "map fst (map (set_val a w) es) = map fst es"
  by (induction es) auto

lemma map_key_set_val [simp]:
  "map (fst \<circ> snd) (map (set_val a w) es) = map (fst \<circ> snd) es"
  by (induction es) auto

lemma map_fst_snd_set_val:
  "map fst (map snd (map (set_val a w) es)) = map fst (map snd es)"
  by (induction es) auto

lemma set_val_other: "a \<notin> fst ` set es \<Longrightarrow> map (set_val a w) es = es"
  by (induction es) (auto simp: set_val_def)

lemma at_assign_table:
  assumes t: "table H h m bs"
  shows "dict bs k = None \<longrightarrow> at_assign H h m k w = Some (Inl out_of_range, h, m)"
    and "dict bs k = Some v \<longrightarrow>
          (\<exists>h' bs'. at_assign H h m k w = Some (Inr (), h', m) \<and> table H h' m bs'
             \<and> dict bs' = (dict bs)(k \<mapsto> w)
             \<and> frame h h' (addrs bs) \<and> addrs bs' = addrs bs)"
proof -
  show "dict bs k = None \<longrightarrow> at_assign H h m k w = Some (Inl out_of_range, h, m)"
    using at_ref_table(1)[OF t, of k] by (simp add: at_assign_def)
  show "dict bs k = Some v \<longrightarrow>
          (\<exists>h' bs'. at_assign H h m k w = Some (Inr (), h', m) \<and> table H h' m bs'
             \<and> dict bs' = (dict bs)(k \<mapsto> w)
             \<and> frame h h' (addrs bs) \<and> addrs bs' = addrs bs)"
  proof
    assume pres: "dict bs k = Some v"
    from at_ref_table(2)[OF t, of k v] pres obtain a n where
      r: "at_ref H h m k = Some (Inr a)" "(a, k, v) \<in> set (concat bs)"
         "deref h a = Some n"
      by blast
    from t have len: "length bs = capacity m" "length (data m) = capacity m"
      and cap: "0 < capacity m"
      and ch: "\<forall>i<capacity m. chain h (data m ! i) (bs ! i)"
      and pl: "\<forall>i<capacity m. \<forall>e\<in>set (bs ! i). H (fst (snd e)) mod capacity m = i"
      and da: "distinct (map fst (concat bs))"
      and dk: "distinct (map fst (entries bs))"
      and sz: "sz m = length (concat bs)"
      by (auto simp: table_def)
    let ?h' = "h[a := Some (n\<lparr>val := w\<rparr>)]"
    let ?bs' = "map (map (set_val a w)) bs"
    have run: "at_assign H h m k w = Some (Inr (), ?h', m)"
      using r(1,3) by (simp add: at_assign_def)
    have cc: "concat ?bs' = map (set_val a w) (concat bs)" by (simp add: map_concat)
    define rs where "rs = filter (\<lambda>x. fst x \<noteq> a) (concat bs)"
    have ms: "mset (concat bs) = add_mset (a, k, v) (mset rs)"
      unfolding rs_def using mset_filter_addr[OF da r(2)] unfolding fst_conv .
    have rs: "map (set_val a w) rs = rs" unfolding rs_def by (rule set_val_other) auto
    have "mset (concat ?bs') = image_mset (set_val a w) (mset (concat bs))"
      by (simp add: cc)
    also have "\<dots> = add_mset (set_val a w (a, k, v)) (mset (map (set_val a w) rs))"
      unfolding ms by simp
    finally have ms': "mset (concat ?bs') = add_mset (a, k, w) (mset rs)"
      by (simp add: rs set_val_def)
    have e1: "mset (entries bs) = mset ((k, v) # map snd rs)"
      using ms by (simp add: mset_entries)
    have e2: "mset (entries ?bs') = mset ((k, w) # map snd rs)"
      using ms' by (simp add: mset_entries)
    have "map fst (entries ?bs') = map fst (entries bs)"
      unfolding entries_def cc by (rule map_fst_snd_set_val)
    then have dk': "distinct (map fst (entries ?bs'))" using dk by simp
    have d: "dict ?bs' = (dict bs)(k \<mapsto> w)"
      using map_of_mset_eq[OF dk e1] map_of_mset_eq[OF dk' e2] by (simp add: dict_def)
    have t': "table H ?h' m ?bs'"
      unfolding table_def
    proof (intro conjI allI impI ballI)
      show "0 < capacity m" "length (data m) = capacity m" using cap len by simp_all
      show "length ?bs' = capacity m" using len by simp
      show "distinct (map fst (concat ?bs'))" unfolding cc map_fst_set_val by (rule da)
      show "distinct (map fst (entries ?bs'))" by (rule dk')
      show "sz m = length (concat ?bs')" using sz by (simp add: cc)
    next
      fix i assume i: "i < capacity m"
      show "chain ?h' (data m ! i) (?bs' ! i)"
        using chain_set_val[OF _ r(3), of "data m ! i" "bs ! i" w] ch i len by simp
      fix e assume "e \<in> set (?bs' ! i)"
      then obtain e0 where e0: "e0 \<in> set (bs ! i)" "e = set_val a w e0" using i len by auto
      then have "fst (snd e) = fst (snd e0)" by (simp add: set_val_def)
      then show "H (fst (snd e)) mod capacity m = i" using pl i e0(1) by simp
    qed
    have ad: "addrs ?bs' = addrs bs"
    proof -
      have "set (map fst (concat ?bs')) = set (map fst (concat bs))" by (simp only: cc map_fst_set_val)
      then show ?thesis by (simp add: addrs_def)
    qed
    have fr: "frame h ?h' (addrs bs)"
    proof -
      have "a \<in> addrs bs" using r(2) by (force simp: addrs_def)
      then show ?thesis by (auto simp: frame_def deref_update)
    qed
    show "\<exists>h' bs'. at_assign H h m k w = Some (Inr (), h', m) \<and> table H h' m bs'
             \<and> dict bs' = (dict bs)(k \<mapsto> w)
             \<and> frame h h' (addrs bs) \<and> addrs bs' = addrs bs"
      using run t' d fr ad by blast
  qed
qed

lemma apply_op_table:
  assumes t: "table H h m bs"
  shows "\<exists>h' m' bs'. apply_op H h m x = Some (h', m') \<and> table H h' m' bs'
     \<and> dict bs' = stored_op (dict bs) x
     \<and> frame h h' (addrs bs) \<and> addrs bs' \<subseteq> addrs bs \<union> {length h..<length h'}"
proof (cases x)
  case (Insert k v)
  from insert_table[OF t, of k v] show ?thesis using Insert by auto
next
  case (Erase k)
  show ?thesis
  proof (cases "dict bs k")
    case None
    then have "erase H h m k = Some (Inl out_of_range, h, m)"
      using t by (intro erase_table_absent)
    moreover have "(dict bs)(k := None) = dict bs" using None by auto
    moreover have "frame h h (addrs bs)" by (simp add: frame_def)
    ultimately show ?thesis using Erase t
      by (intro exI[of _ h] exI[of _ m] exI[of _ bs]) simp
  next
    case (Some v)
    from erase_table_present[OF t Some] show ?thesis using Erase by fastforce
  qed
next
  case Clear
  from clear_table[OF t] obtain h' where
    r: "clear h m = Some (h', m\<lparr>data := replicate (capacity m) nullptr, sz := 0\<rparr>)"
       "table H h' (m\<lparr>data := replicate (capacity m) nullptr, sz := 0\<rparr>) (replicate (capacity m) [])"
       "frame h h' (addrs bs)"
    by blast
  then show ?thesis using Clear
    by (intro exI[of _ h'] exI[of _ "m\<lparr>data := replicate (capacity m) nullptr, sz := 0\<rparr>"]
          exI[of _ "replicate (capacity m) []"]) (simp add: addrs_def)
next
  case (AtAssign k w)
  show ?thesis
  proof (cases "dict bs k")
    case None
    then have "at_assign H h m k w = Some (Inl out_of_range, h, m)"
      using at_assign_table(1)[OF t, of k w] by simp
    moreover have "frame h h (addrs bs)" by (simp add: frame_def)
    ultimately show ?thesis using AtAssign t None
      by (intro exI[of _ h] exI[of _ m] exI[of _ bs]) simp
  next
    case (Some v)
    from at_assign_table(2)[OF t, of k v w] Some obtain h' bs' where
      r: "at_assign H h m k w = Some (Inr (), h', m)" "table H h' m bs'"
         "dict bs' = (dict bs)(k \<mapsto> w)" "frame h h' (addrs bs)" "addrs bs' = addrs bs"
      by blast
    then show ?thesis using AtAssign Some
      by (intro exI[of _ h'] exI[of _ m] exI[of _ bs']) simp
  qed
qed

lemma run_ops_table:
  assumes "table H h m bs"
  shows "\<exists>h' m' bs'. run_ops H h m ops = Some (h', m') \<and> table H h' m' bs'
           \<and> dict bs' = foldl stored_op (dict bs) ops"
  using assms
proof (induction ops arbitrary: h m bs)
  case Nil
  then show ?case by auto
next
  case (Cons x ops)
  from apply_op_table[OF Cons.prems, of x] obtain h1 m1 bs1 where
    1: "apply_op H h m x = Some (h1, m1)" "table H h1 m1 bs1" "dict bs1 = stored_op (dict bs) x"
    by blast
  from Cons.IH[OF 1(2)] obtain h' m' bs' where
    2: "run_ops H h1 m1 ops = Some (h', m')" "table H h' m' bs'"
       "dict bs' = foldl stored_op (dict bs1) ops"
    by blast
  have "run_ops H h m (x # ops) = Some (h', m')" using 1(1) 2(1) by simp
  moreover have "dict bs' = foldl stored_op (dict bs) (x # ops)" using 1(3) 2(3) by simp
  ultimately show ?case using 2(2) by blast
qed

lemma chain_nullptr_iff: "chain h p es \<Longrightarrow> p = nullptr \<longleftrightarrow> es = []"
  by (cases es) (auto split: option.splits)

lemma table_cursor_update [simp]:
  "table H h (m\<lparr>curr := x, curr_idx := y\<rparr>) bs = table H h m bs"
  by (simp add: table_def)

lemma begin_loop_table:
  assumes "table H h m bs" "i \<le> capacity m"
  shows "\<exists>j. begin_loop m i = Some j \<and> i \<le> j \<and> j \<le> capacity m
           \<and> (j < capacity m \<longrightarrow> data m ! j \<noteq> nullptr)
           \<and> concat (drop i bs) = concat (drop j bs)"
  using assms
proof (induction m i rule: begin_loop.induct)
  case (1 m i)
  from 1(2) have len: "length bs = capacity m" "length (data m) = capacity m"
    and ch: "\<forall>j<capacity m. chain h (data m ! j) (bs ! j)"
    by (auto simp: table_def)
  show ?case
  proof (cases "i < capacity m")
    case False
    then show ?thesis using 1(3) by (subst begin_loop.simps) auto
  next
    case True
    then have ba: "bucket_at (data m) i = Some (data m ! i)" using len by (simp add: bucket_at_def)
    show ?thesis
    proof (cases "data m ! i = nullptr")
      case False
      then show ?thesis using True ba by (subst begin_loop.simps) auto
    next
      case n: True
      then have "bs ! i = []" using ch True chain_nullptr_iff by blast
      then have dr: "concat (drop i bs) = concat (drop (Suc i) bs)"
        using True len by (simp flip: Cons_nth_drop_Suc)
      from "1.IH"[OF True ba n 1(2)] True obtain j where
        j: "begin_loop m (i + 1) = Some j" "i + 1 \<le> j" "j \<le> capacity m"
           "j < capacity m \<longrightarrow> data m ! j \<noteq> nullptr"
           "concat (drop (i + 1) bs) = concat (drop j bs)"
        by auto
      have "begin_loop m i = Some j" using True ba n j(1) by (subst begin_loop.simps) simp
      then show ?thesis using j dr by auto
    qed
  qed
qed

lemma begin_table:
  assumes t: "table H h m bs"
  shows "\<exists>c idx. begin_hm m = Some (m\<lparr>curr := Some c, curr_idx := Some idx\<rparr>)
           \<and> remaining h (m\<lparr>curr := Some c, curr_idx := Some idx\<rparr>) bs (concat bs)"
proof -
  from t have len: "length bs = capacity m" "length (data m) = capacity m"
    and ch: "\<forall>j<capacity m. chain h (data m ! j) (bs ! j)"
    by (auto simp: table_def)
  from begin_loop_table[OF t, of 0] obtain j where
    j: "begin_loop m 0 = Some j" "j \<le> capacity m"
       "j < capacity m \<longrightarrow> data m ! j \<noteq> nullptr" "concat bs = concat (drop j bs)"
    by auto
  show ?thesis
  proof (cases "j < capacity m")
    case True
    let ?m' = "m\<lparr>curr := Some (data m ! j), curr_idx := Some j\<rparr>"
    have "begin_hm m = Some ?m'" using j(1) True len by (simp add: begin_hm_def bucket_at_def)
    moreover have "concat bs = bs ! j @ concat (drop (Suc j) bs)"
      using j(4) True len by (simp flip: Cons_nth_drop_Suc)
    then have "remaining h ?m' bs (concat bs)"
      using True j(3) ch by (auto simp: remaining_def)
    ultimately show ?thesis by blast
  next
    case False
    let ?m' = "m\<lparr>curr := Some nullptr, curr_idx := Some j\<rparr>"
    have "begin_hm m = Some ?m'" using j(1) False by (simp add: begin_hm_def)
    moreover have "concat bs = []" using j(2,4) False len by simp
    then have "remaining h ?m' bs (concat bs)" by (simp add: remaining_def)
    ultimately show ?thesis by blast
  qed
qed

lemma next_loop_table:
  assumes "table H h m bs" "i < capacity m"
  shows "\<exists>c j. next_loop m nullptr (Some i) = Some (c, Some j)
           \<and> ((c = nullptr \<and> concat (drop (Suc i) bs) = [])
              \<or> (c \<noteq> nullptr \<and> j < capacity m \<and> chain h c (bs ! j)
                  \<and> concat (drop (Suc i) bs) = bs ! j @ concat (drop (Suc j) bs)))"
  using assms
proof (induction "capacity m - i" arbitrary: i)
  case 0
  then show ?case by simp
next
  case (Suc d)
  from Suc.prems(1) have len: "length bs = capacity m" "length (data m) = capacity m"
    and ch: "\<forall>j<capacity m. chain h (data m ! j) (bs ! j)"
    by (auto simp: table_def)
  show ?case
  proof (cases "i + 1 < capacity m")
    case False
    then have "next_loop m nullptr (Some i) = Some (nullptr, Some (i + 1))"
      by (subst next_loop.simps) simp
    moreover have "concat (drop (Suc i) bs) = []" using False len by simp
    ultimately show ?thesis by simp
  next
    case True
    then have ba: "bucket_at (data m) (i + 1) = Some (data m ! (i + 1))"
      using len by (simp add: bucket_at_def)
    have dr: "concat (drop (Suc i) bs) = bs ! (i + 1) @ concat (drop (Suc (i + 1)) bs)"
      using True len by (simp flip: Cons_nth_drop_Suc)
    show ?thesis
    proof (cases "data m ! (i + 1) = nullptr")
      case False
      then have "next_loop m (data m ! (i + 1)) (Some (i + 1))
          = Some (data m ! (i + 1), Some (i + 1))"
        by (subst next_loop.simps) simp
      then have "next_loop m nullptr (Some i) = Some (data m ! (i + 1), Some (i + 1))"
        using True ba by (subst next_loop.simps) simp
      then show ?thesis using False True ch dr by simp
    next
      case n: True
      then have e: "bs ! (i + 1) = []" using ch True chain_nullptr_iff by blast
      have "d = capacity m - (i + 1)" using Suc.hyps(2) by simp
      from Suc.hyps(1)[OF this Suc.prems(1) True] obtain c j where
        r: "next_loop m nullptr (Some (i + 1)) = Some (c, Some j)"
           "(c = nullptr \<and> concat (drop (Suc (i + 1)) bs) = [])
              \<or> (c \<noteq> nullptr \<and> j < capacity m \<and> chain h c (bs ! j)
                  \<and> concat (drop (Suc (i + 1)) bs) = bs ! j @ concat (drop (Suc j) bs))"
        by blast
      have "next_loop m nullptr (Some i) = Some (c, Some j)"
        using True ba n r(1) by (subst next_loop.simps) simp
      then show ?thesis using r(2) dr e by auto
    qed
  qed
qed

lemma next_table:
  assumes t: "table H h m bs" and r: "remaining h m bs rest"
  shows "(rest = [] \<longrightarrow> next_hm h m = Some (None, m))
     \<and> (\<forall>e rest'. rest = e # rest' \<longrightarrow>
          (\<exists>c idx. next_hm h m = Some (Some (snd e), m\<lparr>curr := Some c, curr_idx := Some idx\<rparr>)
             \<and> remaining h (m\<lparr>curr := Some c, curr_idx := Some idx\<rparr>) bs rest'))"
proof -
  from r obtain c idx where ci: "curr m = Some c" "curr_idx m = Some idx"
    and alt: "(c = nullptr \<and> rest = [])
           \<or> (c \<noteq> nullptr \<and> idx < capacity m
               \<and> (\<exists>es. chain h c es \<and> rest = es @ concat (drop (Suc idx) bs)))"
    by (auto simp: remaining_def)
  show ?thesis
  proof (cases "c = nullptr")
    case True
    then show ?thesis using ci alt by (simp add: next_hm_def)
  next
    case False
    with alt obtain es where es: "idx < capacity m" "chain h c es"
        "rest = es @ concat (drop (Suc idx) bs)"
      by auto
    from es(2) False obtain e es' where ees: "es = e # es'" by (cases es) auto
    with es(2) obtain nd where nd: "deref h (fst e) = Some nd" "c = Node (fst e)"
        "key nd = fst (snd e)" "val nd = snd (snd e)" "chain h (nxt nd) es'"
      by (auto split: option.splits)
    have kv: "(key nd, val nd) = snd e" using nd(3,4) by (cases e) auto
    have "\<exists>c' idx'. next_loop m (nxt nd) (Some idx) = Some (c', Some idx')
            \<and> remaining h (m\<lparr>curr := Some c', curr_idx := Some idx'\<rparr>) bs
                 (es' @ concat (drop (Suc idx) bs))"
    proof (cases "nxt nd = nullptr")
      case False
      then have "next_loop m (nxt nd) (Some idx) = Some (nxt nd, Some idx)"
        by (subst next_loop.simps) simp
      moreover have "remaining h (m\<lparr>curr := Some (nxt nd), curr_idx := Some idx\<rparr>) bs
                 (es' @ concat (drop (Suc idx) bs))"
        using False es(1) nd(5) by (auto simp: remaining_def)
      ultimately show ?thesis by blast
    next
      case True
      then have e': "es' = []" using nd(5) by (simp add: chain_nullptr_iff)
      from next_loop_table[OF t es(1)] obtain c' j where
        l: "next_loop m nullptr (Some idx) = Some (c', Some j)"
           "(c' = nullptr \<and> concat (drop (Suc idx) bs) = [])
              \<or> (c' \<noteq> nullptr \<and> j < capacity m \<and> chain h c' (bs ! j)
                  \<and> concat (drop (Suc idx) bs) = bs ! j @ concat (drop (Suc j) bs))"
        by blast
      have "remaining h (m\<lparr>curr := Some c', curr_idx := Some j\<rparr>) bs
                 (es' @ concat (drop (Suc idx) bs))"
        using l(2) e' by (auto simp: remaining_def)
      then show ?thesis using l(1) True by auto
    qed
    then obtain c' idx' where n: "next_loop m (nxt nd) (Some idx) = Some (c', Some idx')"
      "remaining h (m\<lparr>curr := Some c', curr_idx := Some idx'\<rparr>) bs
                 (es' @ concat (drop (Suc idx) bs))"
      by blast
    have "next_hm h m = Some (Some (snd e), m\<lparr>curr := Some c', curr_idx := Some idx'\<rparr>)"
      using ci nd(1,2) n(1) kv by (simp add: next_hm_def)
    then show ?thesis using n(2) es(3) ees by auto
  qed
qed

lemma next_all_table:
  assumes "table H h m bs" "remaining h m bs rest"
  shows "\<exists>c idx. next_all h m = Some (map snd rest, m\<lparr>curr := Some c, curr_idx := Some idx\<rparr>)
           \<and> remaining h (m\<lparr>curr := Some c, curr_idx := Some idx\<rparr>) bs []"
  using assms
proof (induction rest arbitrary: m)
  case Nil
  from next_table[OF Nil] have n: "next_hm h m = Some (None, m)" by simp
  from Nil(2) obtain c idx where ci: "curr m = Some c" "curr_idx m = Some idx"
    by (auto simp: remaining_def)
  then have "m\<lparr>curr := Some c, curr_idx := Some idx\<rparr> = m" by simp
  moreover have "next_all h m = Some ([], m)" using n by (subst next_all.simps) simp
  ultimately show ?case using Nil(2) by (intro exI[of _ c] exI[of _ idx]) simp
next
  case (Cons e rest)
  from next_table[OF Cons.prems] obtain c idx where
    n: "next_hm h m = Some (Some (snd e), m\<lparr>curr := Some c, curr_idx := Some idx\<rparr>)"
       "remaining h (m\<lparr>curr := Some c, curr_idx := Some idx\<rparr>) bs rest"
    by auto
  let ?m1 = "m\<lparr>curr := Some c, curr_idx := Some idx\<rparr>"
  have t1: "table H h ?m1 bs" using Cons.prems(1) by simp
  from Cons.IH[OF t1 n(2)] obtain c' idx' where
    r: "next_all h ?m1 = Some (map snd rest, ?m1\<lparr>curr := Some c', curr_idx := Some idx'\<rparr>)"
       "remaining h (?m1\<lparr>curr := Some c', curr_idx := Some idx'\<rparr>) bs []"
    by blast
  have "next_all h m = Some (map snd (e # rest), m\<lparr>curr := Some c', curr_idx := Some idx'\<rparr>)"
    using n(1) r(1) by (subst next_all.simps) simp
  then show ?case using r(2) by (intro exI[of _ c'] exI[of _ idx']) simp
qed

lemma remaining_Nil_exhausted:
  assumes "remaining h m bs []"
  shows "curr m = Some nullptr"
proof -
  from assms obtain c idx where ci: "curr m = Some c"
    and alt: "c = nullptr \<or> (c \<noteq> nullptr \<and> (\<exists>es. chain h c es \<and> [] = es @ concat (drop (Suc idx) bs)))"
    by (auto simp: remaining_def)
  from alt have "c = nullptr" by (auto simp: chain_nullptr_iff)
  then show ?thesis using ci by simp
qed

lemma cursor_step_frame:
  "cursor_step h m x = Some m' \<Longrightarrow> \<exists>c i. m' = m\<lparr>curr := c, curr_idx := i\<rparr>"
proof (cases x)
  case CBegin
  assume "cursor_step h m x = Some m'"
  then show ?thesis using CBegin
    by (auto simp: begin_hm_def Option.bind_eq_Some_conv)
next
  case CNext
  assume "cursor_step h m x = Some m'"
  then obtain r where r: "next_hm h m = Some (r, m')" using CNext by auto
  then obtain c where c: "curr m = Some c" by (auto simp: next_hm_def Option.bind_eq_Some_conv)
  show ?thesis
  proof (cases c)
    case nullptr
    then have "m' = m" using r c by (simp add: next_hm_def)
    then have "m' = m\<lparr>curr := curr m, curr_idx := curr_idx m\<rparr>" by simp
    then show ?thesis by blast
  next
    case (Node a)
    then show ?thesis using r c
      by (auto simp: next_hm_def Option.bind_eq_Some_conv)
  qed
qed

lemma run_cursor_frame:
  "run_cursor h m xs = Some m' \<Longrightarrow> \<exists>c i. m' = m\<lparr>curr := c, curr_idx := i\<rparr>"
proof (induction xs arbitrary: m)
  case Nil
  then have "m' = m\<lparr>curr := curr m, curr_idx := curr_idx m\<rparr>" by simp
  then show ?case by blast
next
  case (Cons x xs)
  then obtain m1 where 1: "cursor_step h m x = Some m1" "run_cursor h m1 xs = Some m'"
    by (auto simp: Option.bind_eq_Some_conv)
  from cursor_step_frame[OF 1(1)] obtain c i where "m1 = m\<lparr>curr := c, curr_idx := i\<rparr>" by blast
  moreover from Cons.IH[OF 1(2)] obtain c' i' where "m' = m1\<lparr>curr := c', curr_idx := i'\<rparr>" by blast
  ultimately have "m' = m\<lparr>curr := c', curr_idx := i'\<rparr>" by simp
  then show ?case by blast
qed

lemma run_cursor_total:
  assumes "table H h m bs" "remaining h m bs rest"
  shows "\<exists>m'. run_cursor h m xs = Some m'"
  using assms
proof (induction xs arbitrary: m rest)
  case Nil
  then show ?case by simp
next
  case (Cons x xs)
  have "\<exists>m1 rest1. cursor_step h m x = Some m1 \<and> table H h m1 bs \<and> remaining h m1 bs rest1"
  proof (cases x)
    case CBegin
    from begin_table[OF Cons.prems(1)] show ?thesis using CBegin Cons.prems(1) by auto
  next
    case CNext
    show ?thesis
    proof (cases rest)
      case Nil
      then show ?thesis using next_table[OF Cons.prems] CNext Cons.prems by auto
    next
      case (Cons e rest')
      then show ?thesis using next_table[OF Cons.prems] CNext Cons.prems(1) by fastforce
    qed
  qed
  then obtain m1 rest1 where 1: "cursor_step h m x = Some m1" "table H h m1 bs"
      "remaining h m1 bs rest1"
    by blast
  from Cons.IH[OF 1(2,3)] show ?case using 1(1) by simp
qed

lemma map_snd_relocate [simp]: "map snd (relocate b es) = map snd es"
  by (induction es arbitrary: b) auto

lemma map_fst_relocate [simp]: "map fst (relocate b es) = [b..<b + length es]"
proof (induction es arbitrary: b)
  case Nil
  then show ?case by simp
next
  case (Cons e es)
  have "[b..<Suc (b + length es)] = b # [Suc b..<Suc (b + length es)]"
    by (rule upt_conv_Cons) simp
  then show ?case using Cons.IH[of "Suc b"] by (simp del: upt_Suc)
qed

lemma length_relocate [simp]: "length (relocate b es) = length es"
  by (induction es arbitrary: b) auto

lemma length_relocate_all [simp]: "length (relocate_all b bs) = length bs"
  by (induction bs arbitrary: b) auto

lemma relocate_all_nth:
  "i < length bs \<Longrightarrow>
   relocate_all b bs ! i = relocate (b + length (concat (take i bs))) (bs ! i)"
proof (induction bs arbitrary: b i)
  case Nil
  then show ?case by simp
next
  case (Cons es bs)
  show ?case
  proof (cases i)
    case 0
    then show ?thesis by simp
  next
    case (Suc i')
    then show ?thesis using Cons.IH[of i' "b + length es"] Cons.prems by (simp add: add.assoc)
  qed
qed

lemma map_snd_concat_relocate_all [simp]:
  "map snd (concat (relocate_all b bs)) = map snd (concat bs)"
  by (induction bs arbitrary: b) auto

lemma map_fst_concat_relocate_all [simp]:
  "map fst (concat (relocate_all b bs)) = [b..<b + length (concat bs)]"
proof (induction bs arbitrary: b)
  case Nil
  then show ?case by simp
next
  case (Cons es bs)
  have "[b..<b + length es] @ [b + length es..<b + length es + length (concat bs)]
        = [b..<b + length es + length (concat bs)]"
    by (metis le_add1 upt_add_eq_append)
  then show ?case using Cons.IH[of "b + length es"] by (simp add: add.assoc)
qed

lemma copy_chain_chain:
  assumes "chain h current es" "slot_value (h, d) ptr = Some nullptr"
    and "\<forall>b. ptr = NextOf b \<longrightarrow> b \<notin> fst ` set es"
  shows "\<exists>h' d'. copy_chain current ptr (h, d) = Some (h', d')
     \<and> length h' = length h + length es
     \<and> (\<exists>q. slot_value (h', d') ptr = Some q \<and> chain h' q (relocate (length h) es))
     \<and> (\<forall>a<length h. ptr \<noteq> NextOf a \<longrightarrow> deref h' a = deref h a)
     \<and> (\<forall>b nb. ptr = NextOf b \<longrightarrow> deref h b = Some nb
           \<longrightarrow> (\<exists>q. deref h' b = Some (nb\<lparr>nxt := q\<rparr>)) \<and> d' = d)
     \<and> (\<forall>i. ptr = Bucket i \<longrightarrow> (\<exists>q. d' = d[i := q]))"
  using assms
proof (induction es arbitrary: current ptr h d)
  case Nil
  then have "copy_chain current ptr (h, d) = Some (h, d)" by (simp add: copy_chain.simps)
  moreover have "\<exists>q. d = d[i := q]" for i by (intro exI[of _ "d ! i"]) simp
  moreover have "\<exists>q. deref h b = Some (nb\<lparr>nxt := q\<rparr>)" if "deref h b = Some nb" for b nb
    using that by (intro exI[of _ "nxt nb"]) simp
  ultimately show ?case using Nil by auto
next
  case (Cons e es)
  obtain a k v where e: "e = (a, k, v)" by (cases e)
  from Cons.prems(1) e obtain nd where nd: "deref h a = Some nd" "current = Node a"
      "key nd = k" "val nd = v" "chain h (nxt nd) es"
    by (auto split: option.splits)
  have alt: "a < length h" using nd(1) by (rule deref_less)
  let ?b = "length h"
  let ?h1 = "h @ [Some \<lparr>key = k, val = v, nxt = nullptr\<rparr>]"
  have es_lt: "x \<in> fst ` set es \<Longrightarrow> x < length h" for x
    using chain_less[OF nd(5)] by auto
  obtain h2 d1 where w: "write_slot ptr (Node ?b) (?h1, d) = Some (h2, d1)"
      "length h2 = Suc (length h)"
      "deref h2 ?b = Some \<lparr>key = k, val = v, nxt = nullptr\<rparr>"
      "\<forall>x<length h. ptr \<noteq> NextOf x \<longrightarrow> deref h2 x = deref h x"
      "slot_value (h2, d1) ptr = Some (Node ?b)"
      "\<forall>b nb. ptr = NextOf b \<longrightarrow> deref h b = Some nb
           \<longrightarrow> deref h2 b = Some (nb\<lparr>nxt := Node ?b\<rparr>) \<and> d1 = d"
      "\<forall>i. ptr = Bucket i \<longrightarrow> d1 = d[i := Node ?b] \<and> h2 = ?h1"
  proof (cases ptr)
    case (Bucket i)
    then have i: "i < length d" using Cons.prems(2) by (auto simp: bucket_at_def split: if_splits)
    show ?thesis
      by (rule that[of ?h1 "d[i := Node ?b]"])
         (use Bucket i in \<open>auto simp: write_slot_def bucket_set_def deref_append bucket_at_def\<close>)
  next
    case (NextOf b)
    then obtain nb where nb: "deref h b = Some nb" using Cons.prems(2) by auto
    have blt: "b < length h" using nb by (rule deref_less)
    show ?thesis
      by (rule that[of "?h1[b := Some (nb\<lparr>nxt := Node ?b\<rparr>)]" d])
         (use NextOf nb blt in \<open>auto simp: write_slot_def set_next_def deref_append deref_update\<close>)
  qed
  have ab: "ptr \<noteq> NextOf a" using Cons.prems(3) e by auto
  have d2a: "deref h2 a = Some nd" using w(4) alt ab nd(1) by simp
  have ch2: "chain h2 (nxt nd) es"
  proof (rule chain_heap_cong[OF nd(5)])
    fix x assume x: "x \<in> set es"
    then have "fst x < length h" using es_lt by auto
    moreover have "ptr \<noteq> NextOf (fst x)" using Cons.prems(3) x by auto
    ultimately show "deref h2 (fst x) = deref h (fst x)" using w(4) by simp
  qed
  have sv: "slot_value (h2, d1) (NextOf ?b) = Some nullptr" using w(3) by simp
  have nin: "\<forall>b. NextOf ?b = NextOf b \<longrightarrow> b \<notin> fst ` set es" using es_lt by auto
  from Cons.IH[OF ch2 sv nin] w(3) obtain h' d' q where r:
    "copy_chain (nxt nd) (NextOf ?b) (h2, d1) = Some (h', d')"
    "length h' = length h2 + length es"
    "slot_value (h', d') (NextOf ?b) = Some q" "chain h' q (relocate (length h2) es)"
    "\<forall>x<length h2. NextOf ?b \<noteq> NextOf x \<longrightarrow> deref h' x = deref h2 x"
    "\<exists>q. deref h' ?b = Some (\<lparr>key = k, val = v, nxt = nullptr\<rparr>\<lparr>nxt := q\<rparr>)" "d' = d1"
    by blast
  have run: "copy_chain current ptr (h, d) = Some (h', d')"
    using nd w(1) d2a r(1)
    by (subst copy_chain.simps) (simp add: new_ChainNode_def)
  have newn: "deref h' ?b = Some \<lparr>key = k, val = v, nxt = q\<rparr>"
    using r(3,6) by auto
  have chn: "chain h' (Node ?b) (relocate (length h) (e # es))"
    using newn r(4) w(2) e by simp
  have old: "deref h' x = deref h2 x" if "x < length h" for x
    using r(5) that w(2) by simp
  have svp: "slot_value (h', d') ptr = Some (Node ?b)"
  proof (cases ptr)
    case (Bucket i)
    then show ?thesis using w(5) r(7) by simp
  next
    case (NextOf b)
    then obtain nb where nb: "deref h b = Some nb" using Cons.prems(2) by auto
    have "b < length h" using nb by (rule deref_less)
    then show ?thesis using old[of b] w(5) NextOf by simp
  qed
  have c4: "\<forall>x<length h. ptr \<noteq> NextOf x \<longrightarrow> deref h' x = deref h x"
    using old w(4) by simp
  have c5: "(\<exists>q. deref h' b = Some (nb\<lparr>nxt := q\<rparr>)) \<and> d' = d"
    if "ptr = NextOf b" "deref h b = Some nb" for b nb
  proof -
    have "b < length h" using that(2) by (rule deref_less)
    then have "deref h' b = Some (nb\<lparr>nxt := Node ?b\<rparr>)" using old[of b] w(6) that by simp
    then show ?thesis using w(6) that r(7) by blast
  qed
  have c6: "\<exists>q. d' = d[i := q]" if "ptr = Bucket i" for i
    using w(7) that r(7) by blast
  have "length h' = length h + length (e # es)" using r(2) w(2) by simp
  then show ?case using run svp chn c4 c5 c6
    by (intro exI[of _ h'] exI[of _ d']) blast
qed

lemma copy_buckets_table:
  assumes t: "table H h other bs"
  shows "\<exists>h' d'. copy_buckets h other = Some (h', d')
     \<and> length d' = capacity other
     \<and> (\<forall>i<capacity other. chain h' (d' ! i) (relocate_all (length h) bs ! i))
     \<and> length h' = length h + length (concat bs)
     \<and> (\<forall>a<length h. deref h' a = deref h a)"
proof -
  let ?c = "capacity other"
  let ?body = "\<lambda>i s. do { current \<leftarrow> bucket_at (data other) i; copy_chain current (Bucket i) s }"
  let ?base = "\<lambda>i. length h + length (concat (take i bs))"
  define I where "I = (\<lambda>j (s :: ('a, 'b) heap \<times> pointer list).
     length (snd s) = ?c
     \<and> (\<forall>i<j. chain (fst s) (snd s ! i) (relocate (?base i) (bs ! i)))
     \<and> (\<forall>i. j \<le> i \<and> i < ?c \<longrightarrow> snd s ! i = nullptr)
     \<and> length (fst s) = ?base j
     \<and> (\<forall>a<length h. deref (fst s) a = deref h a))"
  from t have len: "length bs = ?c" "length (data other) = ?c"
    and ch: "\<forall>i<?c. chain h (data other ! i) (bs ! i)"
    by (auto simp: table_def)
  have I0: "I 0 (h, replicate ?c nullptr)" by (simp add: I_def)
  have step: "\<exists>s'. ?body j s = Some s' \<and> I (Suc j) s'" if "0 \<le> j" "j < ?c" "I j s" for j s
  proof -
    obtain hj dj where s: "s = (hj, dj)" by (cases s)
    from that(3) s have c0: "length dj = ?c"
      and c1: "\<forall>i<j. chain hj (dj ! i) (relocate (?base i) (bs ! i))"
      and c2: "\<forall>i. j \<le> i \<and> i < ?c \<longrightarrow> dj ! i = nullptr"
      and c3: "length hj = ?base j"
      and c4: "\<forall>a<length h. deref hj a = deref h a"
      by (auto simp: I_def)
    have cj: "chain hj (data other ! j) (bs ! j)"
    proof (rule chain_heap_cong[of h])
      show "chain h (data other ! j) (bs ! j)" using ch that(2) by simp
      fix e assume "e \<in> set (bs ! j)"
      then have "fst e < length h" using chain_less ch that(2) by blast
      then show "deref hj (fst e) = deref h (fst e)" using c4 by simp
    qed
    have sv: "slot_value (hj, dj) (Bucket j) = Some nullptr"
      using c0 c2 that(2) by (simp add: bucket_at_def)
    from copy_chain_chain[OF cj sv] obtain h' d' q where r:
      "copy_chain (data other ! j) (Bucket j) (hj, dj) = Some (h', d')"
      "length h' = length hj + length (bs ! j)"
      "slot_value (h', d') (Bucket j) = Some q" "chain h' q (relocate (length hj) (bs ! j))"
      "\<forall>a<length hj. deref h' a = deref hj a"
      "\<exists>q. d' = dj[j := q]"
      by auto
    have dq: "d' ! j = q" "length d' = ?c"
      using r(3,6) c0 by (auto simp: bucket_at_def split: if_splits)
    have tk: "take (Suc j) bs = take j bs @ [bs ! j]"
      using that(2) len by (simp add: take_Suc_conv_app_nth)
    have "?body j s = Some (h', d')"
      using r(1) that(2) len s by (simp add: bucket_at_def)
    moreover have "I (Suc j) (h', d')"
      unfolding I_def
    proof (intro conjI allI impI)
      show "length (snd (h', d')) = ?c" using dq by simp
      show "length (fst (h', d')) = ?base (Suc j)" using r(2) c3 tk by simp
      show "deref (fst (h', d')) a = deref h a" if "a < length h" for a
        using that r(5) c3 c4 by simp
      show "snd (h', d') ! i = nullptr" if "Suc j \<le> i \<and> i < ?c" for i
        using that r(6) c2 by auto
      show "chain (fst (h', d')) (snd (h', d') ! i) (relocate (?base i) (bs ! i))"
        if "i < Suc j" for i
      proof (cases "i = j")
        case True
        then show ?thesis using r(4) dq c3 by simp
      next
        case False
        then have ij: "i < j" using that by simp
        have "chain h' (dj ! i) (relocate (?base i) (bs ! i))"
        proof (rule chain_heap_cong[of hj])
          show "chain hj (dj ! i) (relocate (?base i) (bs ! i))" using c1 ij by simp
          fix e assume "e \<in> set (relocate (?base i) (bs ! i))"
          then have "fst e < length hj" using chain_less c1 ij by blast
          then show "deref h' (fst e) = deref hj (fst e)" using r(5) by simp
        qed
        then show ?thesis using r(6) False by auto
      qed
    qed
    ultimately show ?thesis by blast
  qed
  from for_loop_upt[of I 0 "(h, replicate ?c nullptr)" ?c ?body, OF I0 _ step]
  obtain s' where s': "for_loop [0..<?c] ?body (h, replicate ?c nullptr) = Some s'" "I ?c s'"
    by auto
  obtain h' d' where hd: "s' = (h', d')" by (cases s')
  from s'(2) hd len have fin: "length d' = ?c"
      "\<forall>i<?c. chain h' (d' ! i) (relocate (?base i) (bs ! i))"
      "length h' = length h + length (concat bs)" "\<forall>a<length h. deref h' a = deref h a"
    by (auto simp: I_def)
  have "copy_buckets h other = Some (h', d')" using s'(1) hd by (simp add: copy_buckets_def)
  moreover have "\<forall>i<?c. chain h' (d' ! i) (relocate_all (length h) bs ! i)"
    using fin(2) len by (simp add: relocate_all_nth)
  ultimately show ?thesis using fin by blast
qed

lemma relocate_all_table:
  assumes t: "table H h other bs"
    and m: "capacity m = capacity other" "sz m = sz other" "length (data m) = capacity other"
    and ch: "\<forall>i<capacity other. chain h' (data m ! i) (relocate_all b bs ! i)"
  shows "table H h' m (relocate_all b bs)"
    and "dict (relocate_all b bs) = dict bs"
    and "addrs (relocate_all b bs) = {b..<b + length (concat bs)}"
proof -
  from t have len: "length bs = capacity other" and cap: "0 < capacity other"
    and pl: "\<forall>i<capacity other. \<forall>e\<in>set (bs ! i). H (fst (snd e)) mod capacity other = i"
    and dk: "distinct (map fst (entries bs))"
    and sz: "sz other = length (concat bs)"
    by (auto simp: table_def)
  have en: "entries (relocate_all b bs) = entries bs" by (simp add: entries_def)
  show "dict (relocate_all b bs) = dict bs" by (simp add: dict_def en)
  have "fst ` set (concat (relocate_all b bs)) = set (map fst (concat (relocate_all b bs)))"
    by (simp only: set_map)
  also have "\<dots> = set [b..<b + length (concat bs)]"
    by (simp only: map_fst_concat_relocate_all)
  also have "\<dots> = {b..<b + length (concat bs)}" by simp
  finally show "addrs (relocate_all b bs) = {b..<b + length (concat bs)}"
    unfolding addrs_def .
  have lc: "length (concat (relocate_all b bs)) = length (concat bs)"
  proof -
    have "length (concat (relocate_all b bs)) = length (map snd (concat (relocate_all b bs)))"
      by (simp only: length_map)
    also have "\<dots> = length (map snd (concat bs))"
      by (simp only: map_snd_concat_relocate_all)
    finally show ?thesis by (simp only: length_map)
  qed
  have plc: "H (fst (snd e)) mod capacity other = i"
    if "i < capacity other" "e \<in> set (relocate_all b bs ! i)" for i e
  proof -
    have "snd e \<in> set (map snd (relocate_all b bs ! i))" using that(2) by simp
    then have "snd e \<in> snd ` set (bs ! i)"
      using that(1) len by (simp add: relocate_all_nth del: set_map) simp
    then obtain e' where "e' \<in> set (bs ! i)" "snd e = snd e'" by auto
    then show ?thesis using pl that(1) by force
  qed
  show "table H h' m (relocate_all b bs)"
    unfolding table_def using m cap len ch dk sz lc plc by (simp add: en)
qed

lemma HashMap_copy_table:
  assumes t: "table H h other bs"
  shows "\<exists>h' C bs'. HashMap_copy h other = Some (h', C) \<and> table H h' C bs'
     \<and> table H h' other bs \<and> dict bs' = dict bs
     \<and> sz C = sz other \<and> capacity C = capacity other
     \<and> frame h h' {} \<and> addrs bs' = {length h..<length h'}"
proof -
  from copy_buckets_table[OF t] obtain h' d' where
    r: "copy_buckets h other = Some (h', d')" "length d' = capacity other"
       "\<forall>i<capacity other. chain h' (d' ! i) (relocate_all (length h) bs ! i)"
       "length h' = length h + length (concat bs)" "\<forall>a<length h. deref h' a = deref h a"
    by blast
  let ?C = "\<lparr>data = d', sz = sz other, capacity = capacity other, curr = None, curr_idx = None\<rparr>"
  have run: "HashMap_copy h other = Some (h', ?C)" using r(1) by (simp add: HashMap_copy_def)
  have fr: "frame h h' {}" using r(4,5) by (simp add: frame_def)
  have t2: "table H h' other bs" using table_frame[OF t fr] by simp
  have c: "\<forall>i<capacity other. chain h' (data ?C ! i) (relocate_all (length h) bs ! i)"
    using r(3) by simp
  note rt = relocate_all_table[OF t _ _ _ c, simplified, OF r(2)]
  show ?thesis
    using run rt t2 fr r(4)
    by (intro exI[of _ h'] exI[of _ ?C] exI[of _ "relocate_all (length h) bs"]) simp
qed

lemma reach_chain_in:
  "reach h p a \<Longrightarrow> chain h p es \<Longrightarrow> a \<in> fst ` set es"
proof (induction arbitrary: es rule: reach.induct)
  case (here a n)
  then show ?case by (cases es) (auto split: option.splits)
next
  case (further a n b)
  from further.prems further.hyps(1) obtain e es' where
    "es = e # es'" "chain h (nxt n) es'"
    by (cases es) (auto split: option.splits)
  then show ?case using further.IH[of es'] by auto
qed

lemma chain_reach:
  "chain h p es \<Longrightarrow> a \<in> fst ` set es \<Longrightarrow> reach h p a"
proof (induction es arbitrary: p)
  case Nil
  then show ?case by simp
next
  case (Cons e es)
  from Cons.prems(1) obtain n where n: "deref h (fst e) = Some n" "p = Node (fst e)"
      "chain h (nxt n) es"
    by (auto split: option.splits)
  show ?case
  proof (cases "a = fst e")
    case True
    then show ?thesis using n by (auto intro: reach.here)
  next
    case False
    then have "a \<in> fst ` set es" using Cons.prems(2) by auto
    then have "reach h (nxt n) a" using Cons.IH[OF n(3)] by simp
    then show ?thesis using n by (auto intro: reach.further)
  qed
qed

lemma nodes_of_table:
  assumes "table H h m bs"
  shows "nodes_of h m = addrs bs"
proof -
  from assms have len: "length bs = capacity m" "length (data m) = capacity m"
    and ch: "\<forall>i<capacity m. chain h (data m ! i) (bs ! i)"
    by (auto simp: table_def)
  show ?thesis
  proof (intro set_eqI iffI)
    fix a assume "a \<in> nodes_of h m"
    then obtain i where i: "i < capacity m" "reach h (data m ! i) a"
      using len by (auto simp: nodes_of_def)
    then have "a \<in> fst ` set (bs ! i)" using ch reach_chain_in by blast
    then show "a \<in> addrs bs" using i(1) len by (force simp: addrs_def)
  next
    fix a assume "a \<in> addrs bs"
    then obtain e where e: "e \<in> set (concat bs)" "a = fst e" by (auto simp: addrs_def)
    then obtain i where "i < length bs" "e \<in> set (bs ! i)"
      by (auto simp: in_set_conv_nth[of _ bs])
    with e(2) have i: "i < length bs" "a \<in> fst ` set (bs ! i)" by auto
    then have "reach h (data m ! i) a" using ch len chain_reach by metis
    then show "a \<in> nodes_of h m" using i(1) len by (auto simp: nodes_of_def)
  qed
qed

lemma table_other_frame:
  assumes "table H h B bsB" "frame h h' A" "addrs bsB \<inter> A = {}"
    and "addrs bsA' \<subseteq> A \<union> {length h..<length h'}"
  shows "table H h' B bsB" "addrs bsA' \<inter> addrs bsB = {}"
proof -
  show "table H h' B bsB" using assms(1,2,3) by (rule table_frame)
  have "a < length h" if "a \<in> addrs bsB" for a using addrs_less[OF assms(1) that] .
  then show "addrs bsA' \<inter> addrs bsB = {}" using assms(3,4) by fastforce
qed

lemma operator_assign_table:
  assumes rng: "this < length objs" "other < length objs" "this \<noteq> other"
    and tT: "table H h (objs ! this) bsT" and tO: "table H h (objs ! other) bsO"
    and dis: "addrs bsT \<inter> addrs bsO = {}"
  shows "\<exists>h' N bs'. operator_assign h objs this other = Some (h', objs[this := N])
     \<and> table H h' N bs' \<and> table H h' (objs ! other) bsO \<and> dict bs' = dict bsO
     \<and> sz N = sz (objs ! other) \<and> capacity N = capacity (objs ! other)
     \<and> frame h h' (addrs bsT) \<and> addrs bs' = {length h..<length h'}"
proof -
  let ?T = "objs ! this" and ?O = "objs ! other"
  let ?T1 = "?T\<lparr>data := replicate (capacity ?T) nullptr, sz := 0\<rparr>"
  from clear_table[OF tT] obtain h1 where
    c: "clear h ?T = Some (h1, ?T1)" "frame h h1 (addrs bsT)" "length h1 = length h"
    by blast
  have tO1: "table H h1 ?O bsO" using table_frame[OF tO c(2)] dis by blast
  from copy_buckets_table[OF tO1] obtain h' d' where
    r: "copy_buckets h1 ?O = Some (h', d')" "length d' = capacity ?O"
       "\<forall>i<capacity ?O. chain h' (d' ! i) (relocate_all (length h1) bsO ! i)"
       "length h' = length h1 + length (concat bsO)" "\<forall>a<length h1. deref h' a = deref h1 a"
    by blast
  let ?N = "?T1\<lparr>capacity := capacity ?O, sz := sz ?O, data := d'\<rparr>"
  have run: "operator_assign h objs this other = Some (h', objs[this := ?N])"
    using rng c(1) r(1) by (simp add: operator_assign_def)
  have ch: "\<forall>i<capacity ?O. chain h' (data ?N ! i) (relocate_all (length h1) bsO ! i)"
    using r(3) by simp
  note rt = relocate_all_table[OF tO1 _ _ _ ch, simplified, OF r(2)]
  have fr1: "frame h1 h' {}" using r(4,5) by (simp add: frame_def)
  have tO2: "table H h' ?O bsO" using table_frame[OF tO1 fr1] by simp
  have fr: "frame h h' (addrs bsT)"
    using c(2,3) r(4,5) by (auto simp: frame_def)
  show ?thesis
    using run rt tO2 fr r(4) c(3)
    by (intro exI[of _ h'] exI[of _ ?N] exI[of _ "relocate_all (length h1) bsO"]) simp
qed

lemma valid_fresh: "0 < n \<Longrightarrow> valid H h (HashMap_capacity n)"
  unfolding valid_def using table_fresh by blast

lemma nodes_of_fresh: "nodes_of h (HashMap_capacity n) = {}"
  by (auto simp: nodes_of_def HashMap_capacity_def elim: reach.cases)

lemma world_update:
  assumes w: "world_inv H h objs bss" and i: "i < length objs"
    and t: "table H h' m' bs'" and b: "2 * sz m' \<le> 3 * capacity m'"
    and fr: "frame h h' (addrs (bss ! i))"
    and sub: "addrs bs' \<subseteq> addrs (bss ! i) \<union> {length h..<length h'}"
  shows "world_inv H h' (objs[i := m']) (bss[i := bs'])"
proof -
  from w have len: "length bss = length objs"
    and tb: "\<And>j. j < length objs \<Longrightarrow> table H h (objs ! j) (bss ! j)"
    and bd: "\<And>j. j < length objs \<Longrightarrow> 2 * sz (objs ! j) \<le> 3 * capacity (objs ! j)"
    and dj: "\<And>j l. j < length objs \<Longrightarrow> l < length objs \<Longrightarrow> j \<noteq> l
               \<Longrightarrow> addrs (bss ! j) \<inter> addrs (bss ! l) = {}"
    by (auto simp: world_inv_def)
  have other: "table H h' (objs ! j) (bss ! j)" "addrs bs' \<inter> addrs (bss ! j) = {}"
    if "j < length objs" "j \<noteq> i" for j
    using table_other_frame[OF tb[OF that(1)] fr _ sub] dj[OF that(1) i that(2)] by auto
  show ?thesis
    unfolding world_inv_def
  proof (intro conjI allI impI)
    show "length (bss[i := bs']) = length (objs[i := m'])" using len by simp
  next
    fix j assume "j < length (objs[i := m'])"
    then have j: "j < length objs" by simp
    show "table H h' (objs[i := m'] ! j) (bss[i := bs'] ! j)"
      using t other(1)[OF j] i len by (cases "j = i") auto
    show "2 * sz (objs[i := m'] ! j) \<le> 3 * capacity (objs[i := m'] ! j)"
      using b bd[OF j] i by (cases "j = i") auto
    fix l assume "l < length (objs[i := m'])" "j \<noteq> l"
    then have l: "l < length objs" by simp
    show "addrs (bss[i := bs'] ! j) \<inter> addrs (bss[i := bs'] ! l) = {}"
    proof (cases "j = i")
      case True
      then show ?thesis using other(2)[OF l] \<open>j \<noteq> l\<close> i len by auto
    next
      case False
      show ?thesis
      proof (cases "l = i")
        case True
        then show ?thesis using other(2)[OF j False] i len False by auto
      next
        case l': False
        then show ?thesis using dj[OF j l \<open>j \<noteq> l\<close>] False by simp
      qed
    qed
  qed
qed

lemma world_append:
  assumes w: "world_inv H h objs bss"
    and t: "table H h' m' bs'" and b: "2 * sz m' \<le> 3 * capacity m'"
    and fr: "frame h h' {}"
    and sub: "addrs bs' \<subseteq> {length h..<length h'}"
  shows "world_inv H h' (objs @ [m']) (bss @ [bs'])"
proof -
  from w have len: "length bss = length objs"
    and tb: "\<And>j. j < length objs \<Longrightarrow> table H h (objs ! j) (bss ! j)"
    and bd: "\<And>j. j < length objs \<Longrightarrow> 2 * sz (objs ! j) \<le> 3 * capacity (objs ! j)"
    and dj: "\<And>j l. j < length objs \<Longrightarrow> l < length objs \<Longrightarrow> j \<noteq> l
               \<Longrightarrow> addrs (bss ! j) \<inter> addrs (bss ! l) = {}"
    by (auto simp: world_inv_def)
  have sub': "addrs bs' \<subseteq> {} \<union> {length h..<length h'}" using sub by simp
  have other: "table H h' (objs ! j) (bss ! j)" "addrs bs' \<inter> addrs (bss ! j) = {}"
    if "j < length objs" for j
    using table_other_frame[OF tb[OF that] fr _ sub'] by auto
  show ?thesis
    unfolding world_inv_def
  proof (intro conjI allI impI)
    show "length (bss @ [bs']) = length (objs @ [m'])" using len by simp
  next
    fix j assume j: "j < length (objs @ [m'])"
    show "table H h' ((objs @ [m']) ! j) ((bss @ [bs']) ! j)"
      using t other(1)[of j] j len by (cases "j = length objs") (auto simp: nth_append)
    show "2 * sz ((objs @ [m']) ! j) \<le> 3 * capacity ((objs @ [m']) ! j)"
      using b bd[of j] j by (cases "j = length objs") (auto simp: nth_append)
    fix l assume l: "l < length (objs @ [m'])" "j \<noteq> l"
    show "addrs ((bss @ [bs']) ! j) \<inter> addrs ((bss @ [bs']) ! l) = {}"
    proof (cases "j = length objs")
      case True
      then have "l < length objs" using l by simp
      then show ?thesis using other(2)[of l] True len by (auto simp: nth_append)
    next
      case False
      then have j': "j < length objs" using j by simp
      show ?thesis
      proof (cases "l = length objs")
        case True
        then show ?thesis using other(2)[OF j'] j' len by (auto simp: nth_append)
      next
        case False
        then have "l < length objs" using l by simp
        then show ?thesis using dj[OF j' _ l(2)] j' len by (simp add: nth_append)
      qed
    qed
  qed
qed

lemma world_same:
  assumes w: "world_inv H h objs bss" and i: "i < length objs"
  shows "world_inv H h (objs[i := (objs ! i)\<lparr>curr := c, curr_idx := x\<rparr>]) bss"
proof -
  from w i have t: "table H h (objs ! i) (bss ! i)"
    and b: "2 * sz (objs ! i) \<le> 3 * capacity (objs ! i)"
    and len: "length bss = length objs"
    by (auto simp: world_inv_def)
  have "world_inv H h (objs[i := (objs ! i)\<lparr>curr := c, curr_idx := x\<rparr>]) (bss[i := bss ! i])"
    by (rule world_update[OF w i]) (use t b in \<open>auto simp: frame_def\<close>)
  then show ?thesis by simp
qed

lemma insert_bound:
  assumes t: "table H h m bs" and b: "2 * sz m \<le> 3 * capacity m"
  shows "\<exists>h' m' bs'. insert_hm H h m k v = Some (h', m') \<and> table H h' m' bs'
     \<and> frame h h' (addrs bs) \<and> addrs bs' \<subseteq> addrs bs \<union> {length h..<length h'}
     \<and> (capacity m' = capacity m \<or> capacity m' = 2 * capacity m)
     \<and> 2 * sz m' \<le> 3 * capacity m'"
proof -
  from insert_table[OF t, of k v] obtain h' m' bs' where
    r: "insert_hm H h m k v = Some (h', m')" "table H h' m' bs'"
       "sz m' = (if k \<in> dom (dict bs) then sz m else sz m + 1)"
       "capacity m' = (if k \<notin> dom (dict bs) \<and> 3 * capacity m < 2 * (sz m + 1)
                       then capacity m * 2 else capacity m)"
       "frame h h' (addrs bs)" "addrs bs' \<subseteq> addrs bs \<union> {length h..<length h'}"
    by blast
  have cap: "0 < capacity m" using t by (simp add: table_def)
  have "2 * sz m' \<le> 3 * capacity m'" using r(3,4) b cap by (auto split: if_splits)
  moreover have "capacity m' = capacity m \<or> capacity m' = 2 * capacity m"
    using r(4) by (auto split: if_splits)
  ultimately show ?thesis using r(1,2,5,6) by blast
qed

lemma call_step_inv:
  assumes w: "world_inv H h objs bss" and n: "\<forall>n. c = New n \<longrightarrow> 1 \<le> n"
    and s: "call_step H h objs c = Some (h', objs')"
  shows "\<exists>bss'. world_inv H h' objs' bss'"
proof -
  from w have len: "length bss = length objs"
    and tb: "\<And>j. j < length objs \<Longrightarrow> table H h (objs ! j) (bss ! j)"
    and bd: "\<And>j. j < length objs \<Longrightarrow> 2 * sz (objs ! j) \<le> 3 * capacity (objs ! j)"
    and dj: "\<And>j l. j < length objs \<Longrightarrow> l < length objs \<Longrightarrow> j \<noteq> l
               \<Longrightarrow> addrs (bss ! j) \<inter> addrs (bss ! l) = {}"
    by (auto simp: world_inv_def)
  have fr0: "frame h h {}" by (simp add: frame_def)
  show ?thesis
  proof (cases c)
    case (New k)
    then have k: "0 < k" using n by auto
    have "world_inv H h (objs @ [HashMap_capacity k]) (bss @ [replicate k []])"
      by (rule world_append[OF w table_fresh[OF k] _ fr0])
         (simp_all add: HashMap_capacity_def addrs_def)
    then show ?thesis using s New by auto
  next
    case NewDefault
    have "world_inv H h (objs @ [HashMap_default]) (bss @ [replicate 10 []])"
      by (rule world_append[OF w table_default _ fr0])
         (simp_all add: HashMap_default_def addrs_def)
    then show ?thesis using s NewDefault by auto
  next
    case (DoInsert i k v)
    then have i: "i < length objs" using s by (auto split: if_splits)
    from insert_bound[OF tb[OF i] bd[OF i], of k v] obtain h1 m1 bs1 where
      r: "insert_hm H h (objs ! i) k v = Some (h1, m1)" "table H h1 m1 bs1"
         "frame h h1 (addrs (bss ! i))"
         "addrs bs1 \<subseteq> addrs (bss ! i) \<union> {length h..<length h1}"
         "2 * sz m1 \<le> 3 * capacity m1"
      by blast
    have "world_inv H h1 (objs[i := m1]) (bss[i := bs1])"
      using w i r(2,5,3,4) by (rule world_update)
    then show ?thesis using s DoInsert i r(1) by auto
  next
    case (DoErase i k)
    then have i: "i < length objs" using s by (auto split: if_splits)
    show ?thesis
    proof (cases "dict (bss ! i) k")
      case None
      from erase_table_absent[OF tb[OF i] None]
      have "h' = h" "objs' = objs" using s DoErase i by auto
      then show ?thesis using w by blast
    next
      case (Some v)
      from erase_table_present[OF tb[OF i] Some] obtain h1 m1 bs1 where
        r: "erase H h (objs ! i) k = Some (Inr v, h1, m1)" "table H h1 m1 bs1"
           "sz m1 + 1 = sz (objs ! i)" "capacity m1 = capacity (objs ! i)"
           "frame h h1 (addrs (bss ! i))" "addrs bs1 \<subseteq> addrs (bss ! i)"
        by blast
      have b1: "2 * sz m1 \<le> 3 * capacity m1" using r(3,4) bd[OF i] by simp
      have "world_inv H h1 (objs[i := m1]) (bss[i := bs1])"
        using w i r(2) b1 r(5) by (rule world_update) (use r(6) in auto)
      then show ?thesis using s DoErase i r(1) by auto
    qed
  next
    case (DoClear i)
    then have i: "i < length objs" using s by (auto split: if_splits)
    let ?m1 = "(objs ! i)\<lparr>data := replicate (capacity (objs ! i)) nullptr, sz := 0\<rparr>"
    from clear_table[OF tb[OF i]] obtain h1 where
      r: "clear h (objs ! i) = Some (h1, ?m1)"
         "table H h1 ?m1 (replicate (capacity (objs ! i)) [])"
         "frame h h1 (addrs (bss ! i))"
      by blast
    have "world_inv H h1 (objs[i := ?m1]) (bss[i := replicate (capacity (objs ! i)) []])"
      using w i r(2) _ r(3) by (rule world_update) (simp_all add: addrs_def)
    then show ?thesis using s DoClear i r(1) by auto
  next
    case (DoAt i k)
    then have "h' = h" "objs' = objs"
      using s by (auto split: if_splits simp: Option.bind_eq_Some_conv)
    then show ?thesis using w by blast
  next
    case (DoAtAssign i k u)
    then have i: "i < length objs" using s by (auto split: if_splits)
    show ?thesis
    proof (cases "dict (bss ! i) k")
      case None
      then have "at_assign H h (objs ! i) k u = Some (Inl out_of_range, h, objs ! i)"
        using at_assign_table(1)[OF tb[OF i], of k u] by simp
      then have "h' = h" "objs' = objs" using s DoAtAssign i by auto
      then show ?thesis using w by blast
    next
      case (Some v)
      from at_assign_table(2)[OF tb[OF i], of k v u] Some obtain h1 bs1 where
        r: "at_assign H h (objs ! i) k u = Some (Inr (), h1, objs ! i)"
           "table H h1 (objs ! i) bs1" "frame h h1 (addrs (bss ! i))"
           "addrs bs1 = addrs (bss ! i)"
        by blast
      have "world_inv H h1 (objs[i := objs ! i]) (bss[i := bs1])"
        using w i r(2) bd[OF i] r(3) by (rule world_update) (use r(4) in auto)
      then show ?thesis using s DoAtAssign i r(1) by auto
    qed
  next
    case (DoContains i k)
    then have "h' = h" "objs' = objs"
      using s by (auto split: if_splits simp: Option.bind_eq_Some_conv)
    then show ?thesis using w by blast
  next
    case (DoBegin i)
    then obtain m1 where i: "i < length objs" and m1: "cursor_step h (objs ! i) CBegin = Some m1"
        "h' = h" "objs' = objs[i := m1]"
      using s by (auto split: if_splits simp: Option.bind_eq_Some_conv)
    from cursor_step_frame[OF m1(1)] obtain c x where
      "m1 = (objs ! i)\<lparr>curr := c, curr_idx := x\<rparr>" by blast
    then show ?thesis using world_same[OF w i, where c = c and x = x] m1(2,3) by blast
  next
    case (DoNext i)
    then obtain m1 where i: "i < length objs" and m1: "cursor_step h (objs ! i) CNext = Some m1"
        "h' = h" "objs' = objs[i := m1]"
      using s by (auto split: if_splits simp: Option.bind_eq_Some_conv)
    from cursor_step_frame[OF m1(1)] obtain c x where
      "m1 = (objs ! i)\<lparr>curr := c, curr_idx := x\<rparr>" by blast
    then show ?thesis using world_same[OF w i, where c = c and x = x] m1(2,3) by blast
  next
    case (DoCopy i)
    then have i: "i < length objs" using s by (auto split: if_splits)
    from HashMap_copy_table[OF tb[OF i]] obtain h1 C bs1 where
      r: "HashMap_copy h (objs ! i) = Some (h1, C)" "table H h1 C bs1"
         "sz C = sz (objs ! i)" "capacity C = capacity (objs ! i)"
         "frame h h1 {}" "addrs bs1 = {length h..<length h1}"
      by blast
    have b1: "2 * sz C \<le> 3 * capacity C" using r(3,4) bd[OF i] by simp
    have "world_inv H h1 (objs @ [C]) (bss @ [bs1])"
      using w r(2) b1 r(5) by (rule world_append) (use r(6) in simp)
    then show ?thesis using s DoCopy i r(1) by auto
  next
    case (DoAssign i j)
    then have ij: "i < length objs" "j < length objs"
      using s by (auto simp: operator_assign_def split: if_splits)
    show ?thesis
    proof (cases "i = j")
      case True
      then have "h' = h" "objs' = objs" using s DoAssign ij by (auto simp: operator_assign_def)
      then show ?thesis using w by blast
    next
      case False
      from operator_assign_table[OF ij False tb[OF ij(1)] tb[OF ij(2)] dj[OF ij False]]
      obtain h1 N bs1 where
        r: "operator_assign h objs i j = Some (h1, objs[i := N])" "table H h1 N bs1"
           "sz N = sz (objs ! j)" "capacity N = capacity (objs ! j)"
           "frame h h1 (addrs (bss ! i))" "addrs bs1 = {length h..<length h1}"
        by blast
      have b1: "2 * sz N \<le> 3 * capacity N" using r(3,4) bd[OF ij(2)] by simp
      have "world_inv H h1 (objs[i := N]) (bss[i := bs1])"
        using w ij(1) r(2) b1 r(5) by (rule world_update) (use r(6) in auto)
      then show ?thesis using s DoAssign r(1) by auto
    qed
  qed
qed

lemma run_calls_inv:
  assumes "world_inv H h objs bss" "\<forall>n. New n \<in> set cs \<longrightarrow> 1 \<le> n"
    and "run_calls H h objs cs = Some (h', objs')"
  shows "\<exists>bss'. world_inv H h' objs' bss'"
  using assms
proof (induction cs arbitrary: h objs bss)
  case Nil
  then show ?case by auto
next
  case (Cons c cs)
  from Cons.prems(3) obtain h1 objs1 where
    1: "call_step H h objs c = Some (h1, objs1)" "run_calls H h1 objs1 cs = Some (h', objs')"
    by (auto simp: Option.bind_eq_Some_conv)
  have "\<forall>n. c = New n \<longrightarrow> 1 \<le> n" using Cons.prems(2) by auto
  from call_step_inv[OF Cons.prems(1) this 1(1)] obtain bss1 where
    "world_inv H h1 objs1 bss1" by blast
  from Cons.IH[OF this _ 1(2)] Cons.prems(2) show ?case by auto
qed

lemma bound_real:
  "2 * sz m \<le> 3 * capacity m \<longleftrightarrow> real (size_hm m) \<le> 1.5 * real (get_capacity m)"
proof -
  have "real (size_hm m) \<le> 1.5 * real (get_capacity m)
        \<longleftrightarrow> 2 * real (sz m) \<le> 3 * real (capacity m)"
    by (auto simp: size_hm_def get_capacity_def)
  also have "\<dots> \<longleftrightarrow> real (2 * sz m) \<le> real (3 * capacity m)" by simp
  also have "\<dots> \<longleftrightarrow> 2 * sz m \<le> 3 * capacity m" by (rule of_nat_le_iff)
  finally show ?thesis by simp
qed

lemma dom_stored_op:
  "dom M = dom M' \<Longrightarrow> dom (stored_op M x) = dom (spec_op M' x)"
proof (cases x)
  case (Insert k v)
  assume d: "dom M = dom M'"
  then have "M k = None \<longleftrightarrow> M' k = None" by (metis domIff)
  then show ?thesis using Insert d by (auto split: option.splits)
next
  case (Erase k)
  assume "dom M = dom M'"
  then show ?thesis using Erase by simp
next
  case Clear
  then show ?thesis by simp
next
  case (AtAssign k w)
  assume "dom M = dom M'"
  then show ?thesis using AtAssign by (auto split: option.splits)
qed

lemma dom_foldl_stored_op:
  "dom M = dom M' \<Longrightarrow> dom (foldl stored_op M ops) = dom (foldl spec_op M' ops)"
  by (induction ops arbitrary: M M') (auto simp: dom_stored_op simp del: stored_op.simps spec_op.simps)

lemma stored_op_no_assign:
  "\<forall>k w. x \<noteq> AtAssign k w \<Longrightarrow> stored_op M x = spec_op M x"
  by (cases x) auto

lemma foldl_stored_op_no_assign:
  "\<forall>k w. AtAssign k w \<notin> set ops \<Longrightarrow> foldl stored_op M ops = foldl spec_op M ops"
proof (induction ops arbitrary: M)
  case Nil
  then show ?case by simp
next
  case (Cons x ops)
  then have "stored_op M x = spec_op M x" by (intro stored_op_no_assign) auto
  then show ?case using Cons by simp
qed

section \<open>The claims\<close>

lemma all_less_2: "(\<forall>i<(2::nat). P i) \<longleftrightarrow> P 0 \<and> P 1"
  by (auto simp: less_2_cases_iff)

lemma table_example:
  "table hash_id ex_heap ex_map [[(1, 2, 20)], [(2, 3, 30), (0, 1, 10)]]"
  by (simp add: table_def ex_heap_def ex_map_def hash_id_def deref_def entries_def all_less_2)

lemma valid_example: "valid hash_id ex_heap ex_map"
  unfolding valid_def using table_example by (rule exI)

text \<open>
  C4: \<open>rehash\<close> to any capacity of at least one returns, and afterwards \<open>at\<close> and
  \<open>contains\<close> answer for every key as before (so no pair is lost, added or changed),
  \<open>size\<close> is the same, the capacity is the new one, the table is well formed, and a
  key found in bucket \<open>i\<close> hashes to \<open>i\<close> modulo the new capacity.
\<close>

theorem rehash_preserves_map:
  assumes "valid H h m" and "1 \<le> new_capacity"
  shows "\<exists>h' m'. rehash H h m new_capacity = Some (h', m')
     \<and> (\<forall>k. at_hm H h' m' k = at_hm H h m k)
     \<and> (\<forall>k. contains H h' m' k = contains H h m k)
     \<and> size_hm m' = size_hm m
     \<and> get_capacity m' = new_capacity
     \<and> valid H h' m'
     \<and> (\<forall>i k a. i < new_capacity \<longrightarrow> find_node h' k (data m' ! i) = Some (Node a)
           \<longrightarrow> H k mod new_capacity = i)"
proof -
  from assms(1) obtain bs where t: "table H h m bs" by (auto simp: valid_def)
  have n: "0 < new_capacity" using assms(2) by simp
  let ?bs' = "foldl (push H new_capacity) (replicate new_capacity []) (concat bs)"
  from rehash_table[OF t n] obtain h' d' where
    r: "rehash H h m new_capacity = Some (h', m\<lparr>data := d', capacity := new_capacity\<rparr>)"
    and t': "table H h' (m\<lparr>data := d', capacity := new_capacity\<rparr>) ?bs'"
    by blast
  let ?m' = "m\<lparr>data := d', capacity := new_capacity\<rparr>"
  have dk: "distinct (map fst (entries bs))" using t by (simp add: table_def)
  have "mset (concat bs) = mset (concat ?bs')" using n by (simp add: mset_foldl_push)
  then have d: "dict ?bs' = dict bs" using dict_mset_eq[OF dk] by simp
  have at: "at_hm H h' ?m' k = at_hm H h m k" for k
    using at_hm_table[OF t, of k] at_hm_table[OF t', of k] d by (simp add: dict_def)
  have co: "contains H h' ?m' k = contains H h m k" for k
    using contains_table[OF t, of k] contains_table[OF t', of k] d by (simp add: dict_def)
  have pl: "H k mod new_capacity = i"
    if "i < new_capacity" "find_node h' k (data ?m' ! i) = Some (Node a)" for i k a
  proof -
    have c: "chain h' (data ?m' ! i) (?bs' ! i)" using t' that(1) by (simp add: table_def)
    from find_node_chain[OF c, of k] that(2)
    obtain e where "find (\<lambda>e. fst (snd e) = k) (?bs' ! i) = Some e"
      by (auto split: option.splits)
    then have "e \<in> set (?bs' ! i)" "fst (snd e) = k" by (auto dest: find_in_set)
    then show ?thesis using t' that(1) by (auto simp: table_def)
  qed
  have "valid H h' ?m'" using t' by (auto simp: valid_def)
  then show ?thesis using r at co pl
    by (intro exI[of _ h'] exI[of _ ?m']) (simp add: size_hm_def get_capacity_def)
qed

theorem rehash_preserves_map_witness:
  "valid hash_id ex_heap ex_map \<and> (1::nat) \<le> 4
   \<and> (\<exists>h' m'. rehash hash_id ex_heap ex_map 4 = Some (h', m')
        \<and> at_hm hash_id h' m' 3 = Some (Inr 30) \<and> size_hm m' = 3 \<and> get_capacity m' = 4)"
proof -
  have at3: "at_hm hash_id ex_heap ex_map 3 = Some (Inr 30)"
    by (simp add: at_hm_def ex_heap_def ex_map_def hash_id_def bucket_index_def bucket_at_def
        find_node.simps deref_def)
  have sz3: "size_hm ex_map = 3" by (simp add: size_hm_def ex_map_def)
  show ?thesis
    using rehash_preserves_map[OF valid_example, of 4] at3 sz3 valid_example by auto
qed

text \<open>
  C1: on a well-formed table where \<open>at k\<close> returns \<open>v1\<close>, \<open>insert k v2\<close> returns the
  very same heap and table (so \<open>at\<close>, \<open>size\<close>, the capacity and the buckets are as
  before).  Inserting a list of pairs into a fresh table, of a given positive capacity or
  of the default one, returns, \<open>size\<close> is then the number of distinct keys of the list,
  and \<open>at\<close> gives for each key the value of its first pair.
\<close>

theorem insert_first_write_wins:
  "(valid H h m \<longrightarrow> at_hm H h m k = Some (Inr v1) \<longrightarrow> insert_hm H h m k v2 = Some (h, m))
   \<and> (0 < n \<longrightarrow>
        (\<exists>h' m'. insert_all H h (HashMap_capacity n) kvs = Some (h', m')
           \<and> size_hm m' = card (fst ` set kvs)
           \<and> (\<forall>x. at_hm H h' m' x =
                 Some (case map_of kvs x of None \<Rightarrow> Inl out_of_range | Some v \<Rightarrow> Inr v))))
   \<and> (\<exists>h' m'. insert_all H h HashMap_default kvs = Some (h', m')
           \<and> size_hm m' = card (fst ` set kvs)
           \<and> (\<forall>x. at_hm H h' m' x =
                 Some (case map_of kvs x of None \<Rightarrow> Inl out_of_range | Some v \<Rightarrow> Inr v)))"
proof (intro conjI impI)
  assume "valid H h m" and at: "at_hm H h m k = Some (Inr v1)"
  then obtain bs where t: "table H h m bs" by (auto simp: valid_def)
  then have "dict bs k = Some v1" using at by (simp add: at_Inr_iff)
  with t show "insert_hm H h m k v2 = Some (h, m)" by (rule insert_present)
next
  have seq: "\<exists>h' m'. insert_all H h m0 kvs = Some (h', m')
           \<and> size_hm m' = card (fst ` set kvs)
           \<and> (\<forall>x. at_hm H h' m' x =
                 Some (case map_of kvs x of None \<Rightarrow> Inl out_of_range | Some v \<Rightarrow> Inr v))"
    if t0: "table H h m0 (replicate c [])" for m0 c
  proof -
    from insert_all_table[OF t0, of kvs] obtain h' m' bs' where
      r: "insert_all H h m0 kvs = Some (h', m')" "table H h' m' bs'" "dict bs' = map_of kvs"
      by auto
    have "size_hm m' = card (fst ` set kvs)"
      using table_sz_card[OF r(2)] r(3) by (simp add: size_hm_def dom_map_of_conv_image_fst)
    moreover have "at_hm H h' m' x =
        Some (case map_of kvs x of None \<Rightarrow> Inl out_of_range | Some v \<Rightarrow> Inr v)" for x
      using at_hm_table[OF r(2), of x] r(3) by (simp add: dict_def)
    ultimately show ?thesis using r(1) by blast
  qed
  show "\<exists>h' m'. insert_all H h HashMap_default kvs = Some (h', m')
           \<and> size_hm m' = card (fst ` set kvs)
           \<and> (\<forall>x. at_hm H h' m' x =
                 Some (case map_of kvs x of None \<Rightarrow> Inl out_of_range | Some v \<Rightarrow> Inr v))"
    using table_default by (rule seq)
  assume "0 < n"
  then have "table H h (HashMap_capacity n) (replicate n [])" by (rule table_fresh)
  then show "\<exists>h' m'. insert_all H h (HashMap_capacity n) kvs = Some (h', m')
           \<and> size_hm m' = card (fst ` set kvs)
           \<and> (\<forall>x. at_hm H h' m' x =
                 Some (case map_of kvs x of None \<Rightarrow> Inl out_of_range | Some v \<Rightarrow> Inr v))"
    by (rule seq)
qed

lemma at_example: "at_hm hash_id ex_heap ex_map 3 = Some (Inr 30)"
  by (simp add: at_hm_def ex_heap_def ex_map_def hash_id_def bucket_index_def bucket_at_def
      find_node.simps deref_def)

theorem insert_first_write_wins_witness:
  "valid hash_id ex_heap ex_map \<and> at_hm hash_id ex_heap ex_map 3 = Some (Inr 30)
   \<and> insert_hm hash_id ex_heap ex_map 3 99 = Some (ex_heap, ex_map)
   \<and> (0::nat) < 2
   \<and> (\<exists>h' m'. insert_all hash_id ex_heap (HashMap_capacity 2) [(5, 50), (5, 51), (6, 60)]
                 = Some (h', m')
         \<and> size_hm m' = 2 \<and> at_hm hash_id h' m' 5 = Some (Inr (50::nat)))"
proof -
  have c: "card (fst ` set [(5::nat, 50::nat), (5, 51), (6, 60)]) = 2" by simp
  show ?thesis
    using insert_first_write_wins[of hash_id ex_heap ex_map 3 30 99 2 "[(5, 50), (5, 51), (6, 60)]"]
      valid_example at_example c
    by (auto simp del: insert_all.simps)
qed

text \<open>
  C2, as amended: on a well-formed table \<open>contains\<close> always returns, and it returns true
  exactly when \<open>at\<close> returns a value and false exactly when \<open>at\<close> throws \<open>out_of_range\<close>.
  After any sequence of \<open>insert\<close>, \<open>erase\<close>, \<open>clear\<close> and writes through \<open>at\<close> on a
  fresh table, a key that was inserted and not since erased or cleared is contained and
  \<open>at\<close> returns the value stored for it now: the value of the insertion that made it
  present, or the last value written through the reference of \<open>at\<close> since.  Every other key
  is not contained and \<open>at\<close> throws.  The keys are those of the claim's own reading, and
  without a write through \<open>at\<close> so are the values.  A write through \<open>at\<close> to a key that
  \<open>at\<close> finds returns, and \<open>at\<close> then returns the value written.
\<close>

theorem at_contains_stored:
  "(valid H h m \<longrightarrow>
      (contains H h m k = Some True \<and> (\<exists>v. at_hm H h m k = Some (Inr v)))
      \<or> (contains H h m k = Some False \<and> at_hm H h m k = Some (Inl out_of_range)))
   \<and> (0 < n \<longrightarrow>
        (\<exists>h' m'. run_ops H h (HashMap_capacity n) ops = Some (h', m')
           \<and> (\<forall>x. case stored ops x of
                     Some v \<Rightarrow> contains H h' m' x = Some True \<and> at_hm H h' m' x = Some (Inr v)
                   | None \<Rightarrow> contains H h' m' x = Some False
                             \<and> at_hm H h' m' x = Some (Inl out_of_range))))
   \<and> dom (stored ops) = dom (inserted ops)
   \<and> ((\<forall>x w. AtAssign x w \<notin> set ops) \<longrightarrow> stored ops = inserted ops)
   \<and> (valid H h m \<longrightarrow> at_hm H h m k = Some (Inr v) \<longrightarrow>
        (\<exists>h'. at_assign H h m k w = Some (Inr (), h', m) \<and> valid H h' m
           \<and> at_hm H h' m k = Some (Inr w) \<and> contains H h' m k = Some True
           \<and> (\<forall>x. x \<noteq> k \<longrightarrow> at_hm H h' m x = at_hm H h m x)))"
proof (intro conjI impI)
  assume "valid H h m"
  then obtain bs where t: "table H h m bs" by (auto simp: valid_def)
  show "(contains H h m k = Some True \<and> (\<exists>v. at_hm H h m k = Some (Inr v)))
      \<or> (contains H h m k = Some False \<and> at_hm H h m k = Some (Inl out_of_range))"
    using at_hm_table[OF t, of k] contains_table[OF t, of k]
    by (cases "map_of (entries bs) k") auto
next
  assume "0 < n"
  then have "table H h (HashMap_capacity n) (replicate n [])" by (rule table_fresh)
  from run_ops_table[OF this, of ops] obtain h' m' bs' where
    r: "run_ops H h (HashMap_capacity n) ops = Some (h', m')" "table H h' m' bs'"
       "dict bs' = stored ops"
    by (auto simp: stored_def)
  have "case stored ops x of
          Some v \<Rightarrow> contains H h' m' x = Some True \<and> at_hm H h' m' x = Some (Inr v)
        | None \<Rightarrow> contains H h' m' x = Some False \<and> at_hm H h' m' x = Some (Inl out_of_range)"
    for x
    using at_hm_table[OF r(2), of x] contains_table[OF r(2), of x] r(3)
    by (simp add: dict_def split: option.splits)
  then show "\<exists>h' m'. run_ops H h (HashMap_capacity n) ops = Some (h', m')
           \<and> (\<forall>x. case stored ops x of
                     Some v \<Rightarrow> contains H h' m' x = Some True \<and> at_hm H h' m' x = Some (Inr v)
                   | None \<Rightarrow> contains H h' m' x = Some False
                             \<and> at_hm H h' m' x = Some (Inl out_of_range))"
    using r(1) by blast
next
  show "dom (stored ops) = dom (inserted ops)"
    unfolding stored_def inserted_def by (rule dom_foldl_stored_op) simp
next
  assume "\<forall>x w. AtAssign x w \<notin> set ops"
  then show "stored ops = inserted ops"
    unfolding stored_def inserted_def by (rule foldl_stored_op_no_assign)
next
  assume "valid H h m" and at: "at_hm H h m k = Some (Inr v)"
  then obtain bs where t: "table H h m bs" by (auto simp: valid_def)
  then have pres: "dict bs k = Some v" using at by (simp add: at_Inr_iff)
  from at_assign_table(2)[OF t, of k v w] pres obtain h' bs' where
    r: "at_assign H h m k w = Some (Inr (), h', m)" "table H h' m bs'"
       "dict bs' = (dict bs)(k \<mapsto> w)"
    by blast
  have "at_hm H h' m k = Some (Inr w)" using r(3) by (simp add: at_Inr_iff[OF r(2)])
  moreover have "contains H h' m k = Some True"
    using contains_table[OF r(2), of k] r(3) by (simp add: dict_def)
  moreover have "at_hm H h' m x = at_hm H h m x" if "x \<noteq> k" for x
    using at_hm_table[OF r(2), of x] at_hm_table[OF t, of x] r(3) that by (simp add: dict_def)
  moreover have "valid H h' m" using r(2) by (auto simp: valid_def)
  ultimately show "\<exists>h'. at_assign H h m k w = Some (Inr (), h', m) \<and> valid H h' m
           \<and> at_hm H h' m k = Some (Inr w) \<and> contains H h' m k = Some True
           \<and> (\<forall>x. x \<noteq> k \<longrightarrow> at_hm H h' m x = at_hm H h m x)"
    using r(1) by blast
qed

theorem at_contains_stored_witness:
  "valid hash_id ex_heap ex_map
   \<and> contains hash_id ex_heap ex_map 3 = Some True
   \<and> at_hm hash_id ex_heap ex_map 3 = Some (Inr 30)
   \<and> (0::nat) < 2
   \<and> (\<exists>h' m'. run_ops hash_id ex_heap (HashMap_capacity 2)
                  [Insert (5::nat) (50::nat), Insert 6 60, Insert 5 51, AtAssign 6 61, Erase 5,
                   AtAssign 5 52, Insert 7 70]
                 = Some (h', m')
         \<and> contains hash_id h' m' 6 = Some True \<and> at_hm hash_id h' m' 6 = Some (Inr 61)
         \<and> contains hash_id h' m' 5 = Some False
         \<and> at_hm hash_id h' m' 5 = Some (Inl out_of_range))
   \<and> stored [Insert (5::nat) (50::nat), Insert 5 51, Erase 6] 5
        = inserted [Insert (5::nat) (50::nat), Insert 5 51, Erase 6] 5
   \<and> (\<exists>h'. at_assign hash_id ex_heap ex_map 3 99 = Some (Inr (), h', ex_map)
         \<and> at_hm hash_id h' ex_map 3 = Some (Inr 99)
         \<and> at_hm hash_id h' ex_map 1 = at_hm hash_id ex_heap ex_map 1)"
proof -
  let ?ops = "[Insert (5::nat) (50::nat), Insert 6 60, Insert 5 51, AtAssign 6 61, Erase 5,
               AtAssign 5 52, Insert 7 70]"
  let ?ops2 = "[Insert (5::nat) (50::nat), Insert 5 51, Erase 6]"
  have s6: "stored ?ops 6 = Some 61" and s5: "stored ?ops 5 = None"
    by (simp_all add: stored_def)
  note inst1 = at_contains_stored[of hash_id ex_heap ex_map 3 2 ?ops 30 99]
  note inst2 = at_contains_stored[of hash_id ex_heap ex_map 3 2 ?ops2 30 99]
  from inst1 obtain h' m' where r: "run_ops hash_id ex_heap (HashMap_capacity 2) ?ops = Some (h', m')"
    "\<forall>x. case stored ?ops x of
           Some v \<Rightarrow> contains hash_id h' m' x = Some True \<and> at_hm hash_id h' m' x = Some (Inr v)
         | None \<Rightarrow> contains hash_id h' m' x = Some False
                   \<and> at_hm hash_id h' m' x = Some (Inl out_of_range)"
    by auto
  from r(2)[rule_format, of 6] r(2)[rule_format, of 5] s6 s5
  have p2: "contains hash_id h' m' 6 = Some True" "at_hm hash_id h' m' 6 = Some (Inr 61)"
    "contains hash_id h' m' 5 = Some False" "at_hm hash_id h' m' 5 = Some (Inl out_of_range)"
    by simp_all
  have p1: "contains hash_id ex_heap ex_map 3 = Some True"
    using inst1 valid_example at_example by auto
  have "\<forall>x w. AtAssign x w \<notin> set ?ops2" by simp
  then have p3: "stored ?ops2 5 = inserted ?ops2 5" using inst2 by simp
  have p4: "\<exists>h'. at_assign hash_id ex_heap ex_map 3 99 = Some (Inr (), h', ex_map)
         \<and> at_hm hash_id h' ex_map 3 = Some (Inr 99)
         \<and> at_hm hash_id h' ex_map 1 = at_hm hash_id ex_heap ex_map 1"
    using inst1 valid_example at_example by fastforce
  show ?thesis using r(1) p1 p2 p3 p4 valid_example at_example
    by (auto simp del: run_ops.simps)
qed

text \<open>
  C2 as it is written fails: after \<open>insert(3, 30)\<close> and \<open>at(3) = 99\<close> on a table of two
  buckets, key 3 was inserted and not erased or cleared, the value associated at its
  insertion is 30, and \<open>at(3)\<close> returns 99.
\<close>

theorem at_first_insertion_counterexample:
  "run_ops hash_id [] (HashMap_capacity 2) [Insert (3::nat) (30::nat), AtAssign 3 99]
     = Some ([Some \<lparr>key = 3, val = 99, nxt = nullptr\<rparr>],
             \<lparr>data = [nullptr, Node 0], sz = 1, capacity = 2, curr = None, curr_idx = None\<rparr>)
   \<and> inserted [Insert (3::nat) (30::nat), AtAssign 3 99] 3 = Some 30
   \<and> at_hm hash_id [Some \<lparr>key = 3, val = 99, nxt = nullptr\<rparr>]
        \<lparr>data = [nullptr, Node 0], sz = 1, capacity = 2, curr = None, curr_idx = None\<rparr> 3
       = Some (Inr (99::nat))
   \<and> at_hm hash_id [Some \<lparr>key = 3, val = 99, nxt = nullptr\<rparr>]
        \<lparr>data = [nullptr, Node 0], sz = 1, capacity = 2, curr = None, curr_idx = None\<rparr> 3
       \<noteq> Some (Inr (30::nat))"
proof -
  have run: "run_ops hash_id [] (HashMap_capacity 2) [Insert (3::nat) (30::nat), AtAssign 3 99]
     = Some ([Some \<lparr>key = 3, val = 99, nxt = nullptr\<rparr>],
             \<lparr>data = [nullptr, Node 0], sz = 1, capacity = 2, curr = None, curr_idx = None\<rparr>)"
    by code_simp
  have ins: "inserted [Insert (3::nat) (30::nat), AtAssign 3 99] 3 = Some 30"
    by (simp add: inserted_def)
  have at: "at_hm hash_id [Some \<lparr>key = 3, val = 99, nxt = nullptr\<rparr>]
        \<lparr>data = [nullptr, Node 0], sz = 1, capacity = 2, curr = None, curr_idx = None\<rparr> 3
       = Some (Inr (99::nat))"
    by (simp add: at_hm_def hash_id_def bucket_index_def bucket_at_def find_node.simps deref_def)
  show ?thesis using run ins at by simp
qed

text \<open>
  C3: on a well-formed table, \<open>erase\<close> of a key that \<open>at\<close> finds returns that value, leaves
  a well-formed table one smaller and of the same capacity in which the key is not
  contained and every other key is looked up as before; \<open>erase\<close> of a key that \<open>at\<close> does
  not find throws \<open>out_of_range\<close> and leaves heap and table as they were, as on a table
  that was just constructed.
\<close>

theorem erase_semantics:
  "(valid H h m \<longrightarrow> at_hm H h m k = Some (Inr v) \<longrightarrow>
      (\<exists>h' m'. erase H h m k = Some (Inr v, h', m')
         \<and> size_hm m' + 1 = size_hm m
         \<and> contains H h' m' k = Some False
         \<and> (\<forall>x. x \<noteq> k \<longrightarrow> at_hm H h' m' x = at_hm H h m x
                           \<and> contains H h' m' x = contains H h m x)
         \<and> get_capacity m' = get_capacity m
         \<and> valid H h' m'))
   \<and> (valid H h m \<longrightarrow> at_hm H h m k = Some (Inl out_of_range) \<longrightarrow>
        erase H h m k = Some (Inl out_of_range, h, m))
   \<and> (0 < n \<longrightarrow> erase H h (HashMap_capacity n) k = Some (Inl out_of_range, h, HashMap_capacity n))"
proof (intro conjI impI)
  assume "valid H h m" and at: "at_hm H h m k = Some (Inr v)"
  then obtain bs where t: "table H h m bs" by (auto simp: valid_def)
  then have "dict bs k = Some v" using at by (simp add: at_Inr_iff)
  from erase_table_present[OF t this] obtain h' m' bs' where
    r: "erase H h m k = Some (Inr v, h', m')" "table H h' m' bs'"
       "dict bs' = (dict bs)(k := None)" "sz m' + 1 = sz m" "capacity m' = capacity m"
    by blast
  have "contains H h' m' k = Some False"
    using contains_table[OF r(2), of k] r(3) by (simp add: dict_def)
  moreover have "at_hm H h' m' x = at_hm H h m x \<and> contains H h' m' x = contains H h m x"
    if "x \<noteq> k" for x
    using at_hm_table[OF r(2), of x] at_hm_table[OF t, of x]
      contains_table[OF r(2), of x] contains_table[OF t, of x] r(3) that
    by (simp add: dict_def)
  moreover have "valid H h' m'" using r(2) by (auto simp: valid_def)
  ultimately show "\<exists>h' m'. erase H h m k = Some (Inr v, h', m')
         \<and> size_hm m' + 1 = size_hm m
         \<and> contains H h' m' k = Some False
         \<and> (\<forall>x. x \<noteq> k \<longrightarrow> at_hm H h' m' x = at_hm H h m x
                           \<and> contains H h' m' x = contains H h m x)
         \<and> get_capacity m' = get_capacity m
         \<and> valid H h' m'"
    using r(1,4,5) by (intro exI[of _ h'] exI[of _ m']) (simp add: size_hm_def get_capacity_def)
next
  assume "valid H h m" and at: "at_hm H h m k = Some (Inl out_of_range)"
  then obtain bs where t: "table H h m bs" by (auto simp: valid_def)
  then have "dict bs k = None" using at by (simp add: at_Inl_iff)
  with t show "erase H h m k = Some (Inl out_of_range, h, m)" by (rule erase_table_absent)
next
  assume "0 < n"
  then have "table H h (HashMap_capacity n) (replicate n [])" by (rule table_fresh)
  then show "erase H h (HashMap_capacity n) k = Some (Inl out_of_range, h, HashMap_capacity n)"
    by (rule erase_table_absent) simp
qed

lemma at_example_absent: "at_hm hash_id ex_heap ex_map 7 = Some (Inl out_of_range)"
  by (simp add: at_hm_def ex_heap_def ex_map_def hash_id_def bucket_index_def bucket_at_def
      find_node.simps deref_def)

theorem erase_semantics_witness:
  "valid hash_id ex_heap ex_map
   \<and> at_hm hash_id ex_heap ex_map 3 = Some (Inr 30)
   \<and> (\<exists>h' m'. erase hash_id ex_heap ex_map 3 = Some (Inr 30, h', m')
         \<and> size_hm m' + 1 = 3 \<and> contains hash_id h' m' 3 = Some False
         \<and> at_hm hash_id h' m' 1 = at_hm hash_id ex_heap ex_map 1
         \<and> get_capacity m' = 2)
   \<and> at_hm hash_id ex_heap ex_map 7 = Some (Inl out_of_range)
   \<and> erase hash_id ex_heap ex_map 7 = Some (Inl out_of_range, ex_heap, ex_map)
   \<and> (0::nat) < 2
   \<and> erase hash_id ex_heap (HashMap_capacity 2) 7
        = Some (Inl out_of_range, ex_heap, HashMap_capacity 2)"
proof -
  have sc: "size_hm ex_map = 3" "get_capacity ex_map = 2"
    by (simp_all add: size_hm_def get_capacity_def ex_map_def)
  from erase_semantics[of hash_id ex_heap ex_map 3 30 2] valid_example at_example
  obtain h' m' where "erase hash_id ex_heap ex_map 3 = Some (Inr 30, h', m')"
    "size_hm m' + 1 = size_hm ex_map" "contains hash_id h' m' 3 = Some False"
    "\<forall>x. x \<noteq> 3 \<longrightarrow> at_hm hash_id h' m' x = at_hm hash_id ex_heap ex_map x
                           \<and> contains hash_id h' m' x = contains hash_id ex_heap ex_map x"
    "get_capacity m' = get_capacity ex_map"
    by auto
  then have "\<exists>h' m'. erase hash_id ex_heap ex_map 3 = Some (Inr 30, h', m')
         \<and> size_hm m' + 1 = 3 \<and> contains hash_id h' m' 3 = Some False
         \<and> at_hm hash_id h' m' 1 = at_hm hash_id ex_heap ex_map 1
         \<and> get_capacity m' = 2"
    using sc by (intro exI[of _ h'] exI[of _ m']) simp
  then show ?thesis
    using erase_semantics[of hash_id ex_heap ex_map 7 30 2] valid_example at_example
      at_example_absent
    by simp
qed

text \<open>
  C8: on a well-formed table \<open>clear\<close> returns a well-formed table of size zero and of the
  capacity it had, in which no key is contained and \<open>at\<close> throws \<open>out_of_range\<close> for
  every key.
\<close>

theorem clear_empties_keeps_capacity:
  assumes "valid H h m"
  shows "\<exists>h' m'. clear h m = Some (h', m')
     \<and> size_hm m' = 0 \<and> empty_hm m'
     \<and> (\<forall>k. contains H h' m' k = Some False \<and> at_hm H h' m' k = Some (Inl out_of_range))
     \<and> get_capacity m' = get_capacity m
     \<and> valid H h' m'"
proof -
  from assms obtain bs where t: "table H h m bs" by (auto simp: valid_def)
  let ?m' = "m\<lparr>data := replicate (capacity m) nullptr, sz := 0\<rparr>"
  from clear_table[OF t] obtain h' where
    r: "clear h m = Some (h', ?m')" "table H h' ?m' (replicate (capacity m) [])"
    by blast
  have "contains H h' ?m' k = Some False \<and> at_hm H h' ?m' k = Some (Inl out_of_range)" for k
    using at_hm_table[OF r(2), of k] contains_table[OF r(2), of k] by (simp add: entries_def)
  moreover have "valid H h' ?m'" using r(2) by (auto simp: valid_def)
  ultimately show ?thesis using r(1)
    by (intro exI[of _ h'] exI[of _ ?m']) (simp add: size_hm_def empty_hm_def get_capacity_def)
qed

theorem clear_empties_keeps_capacity_witness:
  "valid hash_id ex_heap ex_map
   \<and> (\<exists>h' m'. clear ex_heap ex_map = Some (h', m') \<and> size_hm m' = 0 \<and> empty_hm m'
         \<and> contains hash_id h' m' 3 = Some False
         \<and> at_hm hash_id h' m' 3 = Some (Inl out_of_range)
         \<and> get_capacity m' = 2)"
proof -
  have "get_capacity ex_map = 2" by (simp add: get_capacity_def ex_map_def)
  then show ?thesis
    using clear_empties_keeps_capacity[OF valid_example] valid_example by fastforce
qed

lemma insert_new:
  assumes "table H h m bs" "dict bs k = None"
  shows "\<exists>h' m' bs'. insert_hm H h m k v = Some (h', m') \<and> table H h' m' bs'
     \<and> dict bs' = (dict bs)(k \<mapsto> v) \<and> sz m' = sz m + 1
     \<and> capacity m' = (if 3 * capacity m < 2 * (sz m + 1) then capacity m * 2 else capacity m)"
proof -
  from insert_table[OF assms(1), of k v] obtain h' m' bs' where
    r: "insert_hm H h m k v = Some (h', m')" "table H h' m' bs'"
     "dict bs' = (case dict bs k of None \<Rightarrow> (dict bs)(k \<mapsto> v) | Some w \<Rightarrow> dict bs)"
     "sz m' = (if k \<in> dom (dict bs) then sz m else sz m + 1)"
     "capacity m' = (if k \<notin> dom (dict bs) \<and> 3 * capacity m < 2 * (sz m + 1)
                       then capacity m * 2 else capacity m)"
    by blast
  have "k \<notin> dom (dict bs)" using assms(2) by (simp add: domIff)
  then show ?thesis using r assms(2) by (intro exI[of _ h'] exI[of _ m'] exI[of _ bs']) simp
qed

text \<open>
  C5: an \<open>insert\<close> of a key that is not contained adds one to \<open>size\<close> and doubles the
  capacity exactly when the new size divided by the capacity is greater than 1.5, and
  leaves the capacity alone exactly when it is not; every key is looked up as before,
  and the new key has its value.  In a table constructed with two buckets, whatever the hash
  function, inserting "a", "b" and "c" gives size 3 at capacity 2, and inserting "d" then
  gives size 4 at capacity 4, with all four keys retrievable.
\<close>

theorem growth_trigger:
  "(valid H h m \<longrightarrow> contains H h m k = Some False \<longrightarrow>
      (\<exists>h' m'. insert_hm H h m k v = Some (h', m')
         \<and> size_hm m' = size_hm m + 1
         \<and> (get_capacity m' = 2 * get_capacity m
              \<longleftrightarrow> 1.5 < real (size_hm m') / real (get_capacity m))
         \<and> (get_capacity m' = get_capacity m
              \<longleftrightarrow> \<not> 1.5 < real (size_hm m') / real (get_capacity m))
         \<and> (\<forall>x. at_hm H h' m' x = (if x = k then Some (Inr v) else at_hm H h m x))))
   \<and> (\<exists>h3 m3 h4 m4.
         insert_all Hs hs (HashMap_capacity 2) [(''a'', 1), (''b'', 2), (''c'', 3)] = Some (h3, m3)
         \<and> size_hm m3 = 3 \<and> get_capacity m3 = 2
         \<and> insert_hm Hs h3 m3 ''d'' 4 = Some (h4, m4)
         \<and> size_hm m4 = 4 \<and> get_capacity m4 = 4
         \<and> at_hm Hs h4 m4 ''a'' = Some (Inr (1::int)) \<and> at_hm Hs h4 m4 ''b'' = Some (Inr 2)
         \<and> at_hm Hs h4 m4 ''c'' = Some (Inr 3) \<and> at_hm Hs h4 m4 ''d'' = Some (Inr 4))"
proof (intro conjI impI)
  assume "valid H h m" and c: "contains H h m k = Some False"
  then obtain bs where t: "table H h m bs" by (auto simp: valid_def)
  then have abs: "dict bs k = None" using c by (simp add: contains_iff)
  have cap: "0 < capacity m" using t by (simp add: table_def)
  from insert_new[OF t abs, of v] obtain h' m' bs' where
    r: "insert_hm H h m k v = Some (h', m')" "table H h' m' bs'"
       "dict bs' = (dict bs)(k \<mapsto> v)" "sz m' = sz m + 1"
       "capacity m' = (if 3 * capacity m < 2 * (sz m + 1) then capacity m * 2 else capacity m)"
    by blast
  have lf: "(1.5 < real (sz m + 1) / real (capacity m)) = (3 * capacity m < 2 * (sz m + 1))"
    using load_factor_exceeds[of "m\<lparr>sz := sz m + 1\<rparr>"] cap by (simp add: load_factor_def)
  have "at_hm H h' m' x = (if x = k then Some (Inr v) else at_hm H h m x)" for x
    using at_hm_table[OF r(2), of x] at_hm_table[OF t, of x] r(3) by (simp add: dict_def)
  then show "\<exists>h' m'. insert_hm H h m k v = Some (h', m')
         \<and> size_hm m' = size_hm m + 1
         \<and> (get_capacity m' = 2 * get_capacity m
              \<longleftrightarrow> 1.5 < real (size_hm m') / real (get_capacity m))
         \<and> (get_capacity m' = get_capacity m
              \<longleftrightarrow> \<not> 1.5 < real (size_hm m') / real (get_capacity m))
         \<and> (\<forall>x. at_hm H h' m' x = (if x = k then Some (Inr v) else at_hm H h m x))"
    using r(1,4,5) lf cap
    by (intro exI[of _ h'] exI[of _ m']) (simp add: size_hm_def get_capacity_def)
next
  have t0: "table Hs hs (HashMap_capacity 2) (replicate 2 [])" by (rule table_fresh) simp
  have s0: "sz (HashMap_capacity 2) = 0" "capacity (HashMap_capacity 2) = 2"
    by (simp_all add: HashMap_capacity_def)
  from insert_new[OF t0, of "''a''" "1::int"] s0 obtain h1 m1 bs1 where
    1: "insert_hm Hs hs (HashMap_capacity 2) ''a'' 1 = Some (h1, m1)" "table Hs h1 m1 bs1"
       "dict bs1 = [''a'' \<mapsto> 1]" "sz m1 = 1" "capacity m1 = 2"
    by auto
  from insert_new[OF 1(2), of "''b''" 2] 1(3,4,5) obtain h2 m2 bs2 where
    2: "insert_hm Hs h1 m1 ''b'' 2 = Some (h2, m2)" "table Hs h2 m2 bs2"
       "dict bs2 = [''a'' \<mapsto> 1, ''b'' \<mapsto> 2]" "sz m2 = 2" "capacity m2 = 2"
    by auto
  from insert_new[OF 2(2), of "''c''" 3] 2(3,4,5) obtain h3 m3 bs3 where
    3: "insert_hm Hs h2 m2 ''c'' 3 = Some (h3, m3)" "table Hs h3 m3 bs3"
       "dict bs3 = [''a'' \<mapsto> 1, ''b'' \<mapsto> 2, ''c'' \<mapsto> 3]" "sz m3 = 3" "capacity m3 = 2"
    by auto
  from insert_new[OF 3(2), of "''d''" 4] 3(3,4,5) obtain h4 m4 bs4 where
    4: "insert_hm Hs h3 m3 ''d'' 4 = Some (h4, m4)" "table Hs h4 m4 bs4"
       "dict bs4 = [''a'' \<mapsto> 1, ''b'' \<mapsto> 2, ''c'' \<mapsto> 3, ''d'' \<mapsto> 4]" "sz m4 = 4"
       "capacity m4 = 4"
    by auto
  have all3: "insert_all Hs hs (HashMap_capacity 2) [(''a'', 1), (''b'', 2), (''c'', 3)]
      = Some (h3, m3)"
    using 1(1) 2(1) 3(1) by simp
  have "at_hm Hs h4 m4 ''a'' = Some (Inr 1)" "at_hm Hs h4 m4 ''b'' = Some (Inr 2)"
    "at_hm Hs h4 m4 ''c'' = Some (Inr 3)" "at_hm Hs h4 m4 ''d'' = Some (Inr 4)"
    using 4(3) by (simp_all add: at_Inr_iff[OF 4(2)])
  then show "\<exists>h3 m3 h4 m4.
         insert_all Hs hs (HashMap_capacity 2) [(''a'', 1), (''b'', 2), (''c'', 3)] = Some (h3, m3)
         \<and> size_hm m3 = 3 \<and> get_capacity m3 = 2
         \<and> insert_hm Hs h3 m3 ''d'' 4 = Some (h4, m4)
         \<and> size_hm m4 = 4 \<and> get_capacity m4 = 4
         \<and> at_hm Hs h4 m4 ''a'' = Some (Inr (1::int)) \<and> at_hm Hs h4 m4 ''b'' = Some (Inr 2)
         \<and> at_hm Hs h4 m4 ''c'' = Some (Inr 3) \<and> at_hm Hs h4 m4 ''d'' = Some (Inr 4)"
    using all3 3(4,5) 4(1,4,5)
    by (intro exI[of _ h3] exI[of _ m3] exI[of _ h4] exI[of _ m4])
       (simp add: size_hm_def get_capacity_def)
qed

lemma contains_example_absent: "contains hash_id ex_heap ex_map 7 = Some False"
  by (simp add: contains_def ex_heap_def ex_map_def hash_id_def bucket_index_def bucket_at_def
      find_node.simps deref_def)

theorem growth_trigger_witness:
  "valid hash_id ex_heap ex_map \<and> contains hash_id ex_heap ex_map 7 = Some False
   \<and> (\<exists>h' m'. insert_hm hash_id ex_heap ex_map 7 (70::nat) = Some (h', m')
         \<and> size_hm m' = 4 \<and> get_capacity m' = 4
         \<and> at_hm hash_id h' m' 7 = Some (Inr 70) \<and> at_hm hash_id h' m' 3 = Some (Inr 30))"
proof -
  have sc: "size_hm ex_map = 3" "get_capacity ex_map = 2"
    by (simp_all add: size_hm_def get_capacity_def ex_map_def)
  from growth_trigger[of hash_id ex_heap ex_map 7 70] valid_example contains_example_absent
  obtain h' m' where r: "insert_hm hash_id ex_heap ex_map 7 70 = Some (h', m')"
    "size_hm m' = size_hm ex_map + 1"
    "get_capacity m' = 2 * get_capacity ex_map
       \<longleftrightarrow> 1.5 < real (size_hm m') / real (get_capacity ex_map)"
    "\<forall>x. at_hm hash_id h' m' x = (if x = 7 then Some (Inr 70) else at_hm hash_id ex_heap ex_map x)"
    by blast
  have "size_hm m' = 4" using r(2) sc by simp
  moreover from this have "get_capacity m' = 4" using r(3) sc by simp
  moreover have "at_hm hash_id h' m' 7 = Some (Inr 70)" "at_hm hash_id h' m' 3 = Some (Inr 30)"
    using r(4) at_example by simp_all
  ultimately show ?thesis using r(1) valid_example contains_example_absent by blast
qed

text \<open>
  C7: on a well-formed table, \<open>begin\<close> followed by \<open>next\<close> until it returns false
  produces a list of pairs whose length is \<open>size\<close>, with no key twice, holding exactly
  the pairs \<open>(k, v)\<close> for which \<open>at k\<close> returns \<open>v\<close>; \<open>next\<close> then goes on returning false.
  On an empty table \<open>begin\<close> leaves \<open>curr\<close> null and the first \<open>next\<close> returns false.
\<close>

theorem iteration_complete:
  assumes "valid H h m"
  shows "\<exists>m0 kvs m1. begin_hm m = Some m0 \<and> next_all h m0 = Some (kvs, m1)
     \<and> length kvs = size_hm m \<and> distinct (map fst kvs)
     \<and> (\<forall>k v. (k, v) \<in> set kvs \<longleftrightarrow> at_hm H h m k = Some (Inr v))
     \<and> next_hm h m1 = Some (None, m1)
     \<and> (size_hm m = 0 \<longrightarrow> curr m0 = Some nullptr \<and> next_hm h m0 = Some (None, m0))"
proof -
  from assms obtain bs where t: "table H h m bs" by (auto simp: valid_def)
  from t have dk: "distinct (map fst (entries bs))" and sz: "sz m = length (concat bs)"
    by (auto simp: table_def)
  from begin_table[OF t] obtain c idx where
    b: "begin_hm m = Some (m\<lparr>curr := Some c, curr_idx := Some idx\<rparr>)"
       "remaining h (m\<lparr>curr := Some c, curr_idx := Some idx\<rparr>) bs (concat bs)"
    by blast
  let ?m0 = "m\<lparr>curr := Some c, curr_idx := Some idx\<rparr>"
  have t0: "table H h ?m0 bs" using t by simp
  from next_all_table[OF t0 b(2)] obtain c' idx' where
    n: "next_all h ?m0 = Some (entries bs, ?m0\<lparr>curr := Some c', curr_idx := Some idx'\<rparr>)"
       "remaining h (?m0\<lparr>curr := Some c', curr_idx := Some idx'\<rparr>) bs []"
    by (auto simp: entries_def)
  let ?m1 = "?m0\<lparr>curr := Some c', curr_idx := Some idx'\<rparr>"
  have t1: "table H h ?m1 bs" using t by simp
  have last: "next_hm h ?m1 = Some (None, ?m1)" using next_table[OF t1 n(2)] by simp
  have mem: "(k, v) \<in> set (entries bs) \<longleftrightarrow> at_hm H h m k = Some (Inr v)" for k v
    using dk by (simp add: at_Inr_iff[OF t] dict_def)
  have emp: "curr ?m0 = Some nullptr \<and> next_hm h ?m0 = Some (None, ?m0)" if "size_hm m = 0"
  proof -
    have cb: "concat bs = []" using that sz by (simp add: size_hm_def)
    have r0: "remaining h ?m0 bs []" using b(2) unfolding cb .
    then show ?thesis using next_table[OF t0 r0] remaining_Nil_exhausted[OF r0] by simp
  qed
  have "length (entries bs) = size_hm m" using sz by (simp add: size_hm_def entries_def)
  then show ?thesis
    using b(1) n(1) last mem emp dk
    by (intro exI[of _ ?m0] exI[of _ "entries bs"] exI[of _ ?m1] conjI) blast+
qed

theorem iteration_complete_witness:
  "valid hash_id ex_heap ex_map
   \<and> (\<exists>m0 kvs m1. begin_hm ex_map = Some m0 \<and> next_all ex_heap m0 = Some (kvs, m1)
         \<and> length kvs = 3 \<and> distinct (map fst kvs) \<and> (3, 30) \<in> set kvs
         \<and> next_hm ex_heap m1 = Some (None, m1))"
proof -
  have "size_hm ex_map = 3" by (simp add: size_hm_def ex_map_def)
  then show ?thesis
    using iteration_complete[OF valid_example] valid_example at_example by fastforce
qed

text \<open>
  C10: whatever the table and the heap, if a sequence of \<open>begin\<close> and \<open>next\<close> calls
  returns, the table it leaves differs from the one it started with in \<open>curr\<close> and
  \<open>curr_idx\<close> at most, so \<open>size\<close>, the capacity, \<open>at\<close> and \<open>contains\<close> are as before (the
  calls have no access to the heap but to read it).  On a well-formed table every such
  sequence that starts with \<open>begin\<close> does return.
\<close>

theorem cursor_calls_pure:
  "(run_cursor h m calls = Some m' \<longrightarrow>
      m' = m\<lparr>curr := curr m', curr_idx := curr_idx m'\<rparr>
      \<and> size_hm m' = size_hm m \<and> get_capacity m' = get_capacity m \<and> data m' = data m
      \<and> (\<forall>k. at_hm H h m' k = at_hm H h m k \<and> contains H h m' k = contains H h m k))
   \<and> (valid H h m \<longrightarrow> (\<exists>m''. run_cursor h m (CBegin # calls) = Some m''))"
proof (intro conjI impI)
  assume "run_cursor h m calls = Some m'"
  from run_cursor_frame[OF this] obtain c i where m': "m' = m\<lparr>curr := c, curr_idx := i\<rparr>"
    by blast
  show "m' = m\<lparr>curr := curr m', curr_idx := curr_idx m'\<rparr>" using m' by simp
  show "size_hm m' = size_hm m" using m' by (simp add: size_hm_def)
  show "get_capacity m' = get_capacity m" using m' by (simp add: get_capacity_def)
  show "data m' = data m" using m' by simp
  show "\<forall>k. at_hm H h m' k = at_hm H h m k \<and> contains H h m' k = contains H h m k"
    using m' by (simp add: at_hm_def contains_def)
next
  assume "valid H h m"
  then obtain bs where t: "table H h m bs" by (auto simp: valid_def)
  from begin_table[OF t] obtain c idx where
    b: "begin_hm m = Some (m\<lparr>curr := Some c, curr_idx := Some idx\<rparr>)"
       "remaining h (m\<lparr>curr := Some c, curr_idx := Some idx\<rparr>) bs (concat bs)"
    by blast
  have "table H h (m\<lparr>curr := Some c, curr_idx := Some idx\<rparr>) bs" using t by simp
  from run_cursor_total[OF this b(2), of calls] b(1)
  show "\<exists>m''. run_cursor h m (CBegin # calls) = Some m''" by simp
qed

theorem cursor_calls_pure_witness:
  "run_cursor ex_heap ex_map [CBegin, CNext, CNext, CBegin, CNext]
     = Some (ex_map\<lparr>curr := Some (Node 2), curr_idx := Some 1\<rparr>)
   \<and> size_hm (ex_map\<lparr>curr := Some (Node 2), curr_idx := Some 1\<rparr>) = size_hm ex_map
   \<and> at_hm hash_id ex_heap (ex_map\<lparr>curr := Some (Node 2), curr_idx := Some 1\<rparr>) 3
       = at_hm hash_id ex_heap ex_map 3
   \<and> valid hash_id ex_heap ex_map
   \<and> (\<exists>m''. run_cursor ex_heap ex_map [CBegin, CNext, CNext, CNext, CNext] = Some m'')"
proof -
  have run: "run_cursor ex_heap ex_map [CBegin, CNext, CNext, CBegin, CNext]
     = Some (ex_map\<lparr>curr := Some (Node 2), curr_idx := Some 1\<rparr>)"
    by (simp add: begin_hm_def next_hm_def begin_loop.simps next_loop.simps bucket_at_def
        ex_map_def ex_heap_def deref_def)
  show ?thesis
    using cursor_calls_pure[of ex_heap ex_map "[CBegin, CNext, CNext, CBegin, CNext]"
        "ex_map\<lparr>curr := Some (Node 2), curr_idx := Some 1\<rparr>" hash_id] run
      cursor_calls_pure[of ex_heap ex_map "[CNext, CNext, CNext, CNext]" ex_map hash_id]
      valid_example
    by (simp del: run_cursor.simps)
qed

text \<open>
  C6: the copy constructor, on a well-formed table \<open>T\<close>, returns a well-formed table of
  the same capacity and size in which \<open>at\<close> answers as in \<open>T\<close>, while \<open>T\<close> is as before;
  the two tables have no node in common, and after \<open>clear\<close> of \<open>T\<close> the copy still answers
  as \<open>T\<close> did.  Assignment between two different well-formed tables without common nodes
  does the same for its target and touches no other table object.  Self-assignment returns
  the heap and every table unchanged.  In general, when two well-formed tables have no node
  in common, an \<open>insert\<close>, \<open>erase\<close>, \<open>clear\<close> or write through \<open>at\<close> on one of them
  returns and leaves the other well formed, with the same answers of \<open>at\<close> and
  \<open>contains\<close>, and still without a common node.
\<close>

theorem deep_copy_independence:
  "(valid H h T \<longrightarrow>
      (\<exists>h' C. HashMap_copy h T = Some (h', C)
         \<and> get_capacity C = get_capacity T \<and> size_hm C = size_hm T
         \<and> (\<forall>k. at_hm H h' C k = at_hm H h T k \<and> at_hm H h' T k = at_hm H h T k)
         \<and> valid H h' C \<and> valid H h' T
         \<and> nodes_of h' C \<inter> nodes_of h' T = {}
         \<and> (\<exists>h'' T'. clear h' T = Some (h'', T') \<and> size_hm T' = 0
               \<and> (\<forall>k. at_hm H h'' C k = at_hm H h T k) \<and> valid H h'' C)))
   \<and> (this < length objs \<longrightarrow> other < length objs \<longrightarrow> this \<noteq> other \<longrightarrow>
       valid H h (objs ! this) \<longrightarrow> valid H h (objs ! other) \<longrightarrow>
       nodes_of h (objs ! this) \<inter> nodes_of h (objs ! other) = {} \<longrightarrow>
      (\<exists>h' N. operator_assign h objs this other = Some (h', objs[this := N])
         \<and> get_capacity N = get_capacity (objs ! other) \<and> size_hm N = size_hm (objs ! other)
         \<and> (\<forall>k. at_hm H h' N k = at_hm H h (objs ! other) k
                \<and> at_hm H h' (objs ! other) k = at_hm H h (objs ! other) k)
         \<and> valid H h' N \<and> valid H h' (objs ! other)
         \<and> nodes_of h' N \<inter> nodes_of h' (objs ! other) = {}))
   \<and> (this < length objs \<longrightarrow> operator_assign h objs this this = Some (h, objs))
   \<and> (valid H h A \<longrightarrow> valid H h B \<longrightarrow> nodes_of h A \<inter> nodes_of h B = {} \<longrightarrow>
      (\<exists>h' A'. apply_op H h A x = Some (h', A')
         \<and> valid H h' A' \<and> valid H h' B \<and> nodes_of h' A' \<inter> nodes_of h' B = {}
         \<and> (\<forall>k. at_hm H h' B k = at_hm H h B k \<and> contains H h' B k = contains H h B k)))"
proof (intro conjI impI)
  assume "valid H h T"
  then obtain bs where t: "table H h T bs" by (auto simp: valid_def)
  from HashMap_copy_table[OF t] obtain h' C bs' where
    r: "HashMap_copy h T = Some (h', C)" "table H h' C bs'" "table H h' T bs"
       "dict bs' = dict bs" "sz C = sz T" "capacity C = capacity T"
       "addrs bs' = {length h..<length h'}"
    by blast
  have lt: "a < length h" if "a \<in> addrs bs" for a using addrs_less[OF t that] .
  have dis: "addrs bs' \<inter> addrs bs = {}" using r(7) lt by fastforce
  have at: "at_hm H h' C k = at_hm H h T k \<and> at_hm H h' T k = at_hm H h T k" for k
    using at_hm_table[OF r(2), of k] at_hm_table[OF r(3), of k] at_hm_table[OF t, of k] r(4)
    by (simp add: dict_def)
  from clear_table[OF r(3)] obtain h'' where
    c: "clear h' T = Some (h'', T\<lparr>data := replicate (capacity T) nullptr, sz := 0\<rparr>)"
       "frame h' h'' (addrs bs)"
    by blast
  have tC: "table H h'' C bs'" using table_frame[OF r(2) c(2)] dis by blast
  have at2: "at_hm H h'' C k = at_hm H h T k" for k
    using at_hm_table[OF tC, of k] at_hm_table[OF t, of k] r(4) by (simp add: dict_def)
  have cl: "\<exists>h'' T'. clear h' T = Some (h'', T') \<and> size_hm T' = 0
               \<and> (\<forall>k. at_hm H h'' C k = at_hm H h T k) \<and> valid H h'' C"
    using c(1) at2 tC by (auto simp: size_hm_def valid_def)
  have "nodes_of h' C \<inter> nodes_of h' T = {}"
    using dis by (simp add: nodes_of_table[OF r(2)] nodes_of_table[OF r(3)])
  moreover have "valid H h' C" "valid H h' T" using r(2,3) by (auto simp: valid_def)
  ultimately show "\<exists>h' C. HashMap_copy h T = Some (h', C)
         \<and> get_capacity C = get_capacity T \<and> size_hm C = size_hm T
         \<and> (\<forall>k. at_hm H h' C k = at_hm H h T k \<and> at_hm H h' T k = at_hm H h T k)
         \<and> valid H h' C \<and> valid H h' T
         \<and> nodes_of h' C \<inter> nodes_of h' T = {}
         \<and> (\<exists>h'' T'. clear h' T = Some (h'', T') \<and> size_hm T' = 0
               \<and> (\<forall>k. at_hm H h'' C k = at_hm H h T k) \<and> valid H h'' C)"
    using r(1,5,6) at cl
    by (intro exI[of _ h'] exI[of _ C]) (simp add: size_hm_def get_capacity_def)
next
  assume rng: "this < length objs" "other < length objs" "this \<noteq> other"
    and v: "valid H h (objs ! this)" "valid H h (objs ! other)"
    and n: "nodes_of h (objs ! this) \<inter> nodes_of h (objs ! other) = {}"
  from v obtain bsT bsO where tT: "table H h (objs ! this) bsT"
    and tO: "table H h (objs ! other) bsO"
    by (auto simp: valid_def)
  have dis: "addrs bsT \<inter> addrs bsO = {}"
    using n by (simp add: nodes_of_table[OF tT] nodes_of_table[OF tO])
  from operator_assign_table[OF rng tT tO dis] obtain h' N bs' where
    r: "operator_assign h objs this other = Some (h', objs[this := N])"
       "table H h' N bs'" "table H h' (objs ! other) bsO" "dict bs' = dict bsO"
       "sz N = sz (objs ! other)" "capacity N = capacity (objs ! other)"
       "addrs bs' = {length h..<length h'}"
    by blast
  have lt: "a < length h" if "a \<in> addrs bsO" for a using addrs_less[OF tO that] .
  have dis': "addrs bs' \<inter> addrs bsO = {}" using r(7) lt by fastforce
  have at: "at_hm H h' N k = at_hm H h (objs ! other) k
                \<and> at_hm H h' (objs ! other) k = at_hm H h (objs ! other) k" for k
    using at_hm_table[OF r(2), of k] at_hm_table[OF r(3), of k] at_hm_table[OF tO, of k] r(4)
    by (simp add: dict_def)
  have "nodes_of h' N \<inter> nodes_of h' (objs ! other) = {}"
    using dis' by (simp add: nodes_of_table[OF r(2)] nodes_of_table[OF r(3)])
  moreover have "valid H h' N" "valid H h' (objs ! other)" using r(2,3) by (auto simp: valid_def)
  ultimately show "\<exists>h' N. operator_assign h objs this other = Some (h', objs[this := N])
         \<and> get_capacity N = get_capacity (objs ! other) \<and> size_hm N = size_hm (objs ! other)
         \<and> (\<forall>k. at_hm H h' N k = at_hm H h (objs ! other) k
                \<and> at_hm H h' (objs ! other) k = at_hm H h (objs ! other) k)
         \<and> valid H h' N \<and> valid H h' (objs ! other)
         \<and> nodes_of h' N \<inter> nodes_of h' (objs ! other) = {}"
    using r(1,5,6) at
    by (intro exI[of _ h'] exI[of _ N]) (simp add: size_hm_def get_capacity_def)
next
  assume "this < length objs"
  then show "operator_assign h objs this this = Some (h, objs)"
    by (simp add: operator_assign_def)
next
  assume v: "valid H h A" "valid H h B" and n: "nodes_of h A \<inter> nodes_of h B = {}"
  from v obtain bsA bsB where tA: "table H h A bsA" and tB: "table H h B bsB"
    by (auto simp: valid_def)
  have dis: "addrs bsB \<inter> addrs bsA = {}"
    using n by (auto simp: nodes_of_table[OF tA] nodes_of_table[OF tB])
  from apply_op_table[OF tA, of x] obtain h' A' bsA' where
    r: "apply_op H h A x = Some (h', A')" "table H h' A' bsA'"
       "frame h h' (addrs bsA)" "addrs bsA' \<subseteq> addrs bsA \<union> {length h..<length h'}"
    by blast
  note o = table_other_frame[OF tB r(3) dis r(4)]
  have "at_hm H h' B k = at_hm H h B k \<and> contains H h' B k = contains H h B k" for k
    using at_hm_table[OF o(1), of k] at_hm_table[OF tB, of k]
      contains_table[OF o(1), of k] contains_table[OF tB, of k] by simp
  moreover have "nodes_of h' A' \<inter> nodes_of h' B = {}"
    using o(2) by (simp add: nodes_of_table[OF r(2)] nodes_of_table[OF o(1)])
  moreover have "valid H h' A'" "valid H h' B" using r(2) o(1) by (auto simp: valid_def)
  ultimately show "\<exists>h' A'. apply_op H h A x = Some (h', A')
         \<and> valid H h' A' \<and> valid H h' B \<and> nodes_of h' A' \<inter> nodes_of h' B = {}
         \<and> (\<forall>k. at_hm H h' B k = at_hm H h B k \<and> contains H h' B k = contains H h B k)"
    using r(1) by (intro exI[of _ h'] exI[of _ A']) simp
qed

theorem deep_copy_independence_witness:
  "valid hash_id ex_heap ex_map
   \<and> (\<exists>h' C. HashMap_copy ex_heap ex_map = Some (h', C)
         \<and> get_capacity C = 2 \<and> size_hm C = 3
         \<and> at_hm hash_id h' C 3 = Some (Inr 30)
         \<and> nodes_of h' C \<inter> nodes_of h' ex_map = {}
         \<and> (\<exists>h'' T'. clear h' ex_map = Some (h'', T') \<and> size_hm T' = 0
               \<and> at_hm hash_id h'' C 3 = Some (Inr 30)))
   \<and> (1::nat) < length [ex_map, HashMap_capacity 1]
   \<and> valid hash_id ex_heap ([ex_map, HashMap_capacity 1] ! 1)
   \<and> nodes_of ex_heap ([ex_map, HashMap_capacity 1] ! 1)
        \<inter> nodes_of ex_heap ([ex_map, HashMap_capacity 1] ! 0) = {}
   \<and> (\<exists>h' N. operator_assign ex_heap [ex_map, HashMap_capacity 1] 1 0
                 = Some (h', [ex_map, HashMap_capacity 1][1 := N])
         \<and> get_capacity N = 2 \<and> at_hm hash_id h' N 3 = Some (Inr 30))
   \<and> operator_assign ex_heap [ex_map, HashMap_capacity 1] 0 0
        = Some (ex_heap, [ex_map, HashMap_capacity 1])
   \<and> (\<exists>h' A'. apply_op hash_id ex_heap (HashMap_capacity 1) (Insert 7 70) = Some (h', A')
         \<and> at_hm hash_id h' ex_map 3 = Some (Inr 30))"
proof -
  let ?objs = "[ex_map, HashMap_capacity 1]"
  have sc: "size_hm ex_map = 3" "get_capacity ex_map = 2"
    by (simp_all add: size_hm_def get_capacity_def ex_map_def)
  have v1: "valid hash_id ex_heap (HashMap_capacity 1)" by (rule valid_fresh) simp
  have n1: "nodes_of ex_heap (HashMap_capacity 1) \<inter> nodes_of ex_heap ex_map = {}"
    by (simp add: nodes_of_fresh)
  note inst1 = deep_copy_independence[of hash_id ex_heap ex_map 1 ?objs 0
      "HashMap_capacity 1" ex_map "Insert 7 70"]
  note inst0 = deep_copy_independence[of hash_id ex_heap ex_map 0 ?objs 0
      "HashMap_capacity 1" ex_map "Insert 7 70"]
  have p1: "\<exists>h' C. HashMap_copy ex_heap ex_map = Some (h', C)
         \<and> get_capacity C = 2 \<and> size_hm C = 3
         \<and> at_hm hash_id h' C 3 = Some (Inr 30)
         \<and> nodes_of h' C \<inter> nodes_of h' ex_map = {}
         \<and> (\<exists>h'' T'. clear h' ex_map = Some (h'', T') \<and> size_hm T' = 0
               \<and> at_hm hash_id h'' C 3 = Some (Inr 30))"
    using inst1 valid_example at_example sc by fastforce
  have p2: "\<exists>h' N. operator_assign ex_heap ?objs 1 0 = Some (h', ?objs[1 := N])
         \<and> get_capacity N = 2 \<and> at_hm hash_id h' N 3 = Some (Inr 30)"
    using inst1 valid_example at_example sc v1 n1 by fastforce
  have p3: "operator_assign ex_heap ?objs 0 0 = Some (ex_heap, ?objs)"
    using inst0 by simp
  have p4: "\<exists>h' A'. apply_op hash_id ex_heap (HashMap_capacity 1) (Insert 7 70) = Some (h', A')
         \<and> at_hm hash_id h' ex_map 3 = Some (Inr 30)"
    using inst1 valid_example at_example v1 n1 by fastforce
  show ?thesis using p1 p2 p3 p4 valid_example v1 n1 by simp
qed

text \<open>
  C9: in a program that constructs its tables with a capacity of at least one (or the
  default) and then only calls \<open>insert\<close>, \<open>erase\<close>, \<open>clear\<close>, \<open>at\<close> (to read or to write
  through), \<open>contains\<close>, \<open>begin\<close>, \<open>next\<close>, the copy constructor and assignment, after any number of completed
  calls every table has \<open>size \<le> 1.5 * capacity\<close>.  On a well-formed table within that
  bound a single \<open>insert\<close> returns, leaves the capacity as it was or doubles it once, and
  the bound holds again.
\<close>

theorem load_factor_invariant:
  "((\<forall>n. New n \<in> set calls \<longrightarrow> 1 \<le> n) \<longrightarrow>
      run_calls H h0 [] (take j calls) = Some (h, objs) \<longrightarrow>
      (\<forall>m\<in>set objs. real (size_hm m) \<le> 1.5 * real (get_capacity m) \<and> valid H h m))
   \<and> (valid H h1 m1 \<longrightarrow> real (size_hm m1) \<le> 1.5 * real (get_capacity m1) \<longrightarrow>
        (\<exists>h' m'. insert_hm H h1 m1 k v = Some (h', m')
           \<and> (get_capacity m' = get_capacity m1 \<or> get_capacity m' = 2 * get_capacity m1)
           \<and> real (size_hm m') \<le> 1.5 * real (get_capacity m')))"
proof (intro conjI impI)
  assume n: "\<forall>n. New n \<in> set calls \<longrightarrow> 1 \<le> n"
    and r: "run_calls H h0 [] (take j calls) = Some (h, objs)"
  have n': "\<forall>n. New n \<in> set (take j calls) \<longrightarrow> 1 \<le> n"
    using n by (auto dest: in_set_takeD)
  have "world_inv H h0 [] []" by (simp add: world_inv_def)
  from run_calls_inv[OF this n' r] obtain bss where w: "world_inv H h objs bss" by blast
  show "\<forall>m\<in>set objs. real (size_hm m) \<le> 1.5 * real (get_capacity m) \<and> valid H h m"
  proof
    fix m assume "m \<in> set objs"
    then obtain i where "i < length objs" "m = objs ! i" by (auto simp: in_set_conv_nth)
    then have "table H h m (bss ! i)" "2 * sz m \<le> 3 * capacity m"
      using w by (auto simp: world_inv_def)
    then show "real (size_hm m) \<le> 1.5 * real (get_capacity m) \<and> valid H h m"
      using bound_real[of m] by (auto simp: valid_def)
  qed
next
  assume "valid H h1 m1" and b: "real (size_hm m1) \<le> 1.5 * real (get_capacity m1)"
  then obtain bs where t: "table H h1 m1 bs" by (auto simp: valid_def)
  have b': "2 * sz m1 \<le> 3 * capacity m1" using b bound_real[of m1] by simp
  from insert_bound[OF t b', of k v] obtain h' m' where
    r: "insert_hm H h1 m1 k v = Some (h', m')"
       "capacity m' = capacity m1 \<or> capacity m' = 2 * capacity m1"
       "2 * sz m' \<le> 3 * capacity m'"
    by blast
  have "real (size_hm m') \<le> 1.5 * real (get_capacity m')" using r(3) bound_real[of m'] by simp
  then show "\<exists>h' m'. insert_hm H h1 m1 k v = Some (h', m')
           \<and> (get_capacity m' = get_capacity m1 \<or> get_capacity m' = 2 * get_capacity m1)
           \<and> real (size_hm m') \<le> 1.5 * real (get_capacity m')"
    using r(1,2) by (auto simp: get_capacity_def)
qed


lemma ex_calls_run:
  "map_option (length \<circ> snd) (run_calls hash_id [] [] ex_calls) = Some 3"
  by code_simp

theorem load_factor_invariant_witness:
  "(\<exists>h objs. run_calls hash_id [] [] (take 12 ex_calls) = Some (h, objs) \<and> length objs = 3
       \<and> (\<forall>m\<in>set objs. real (size_hm m) \<le> 1.5 * real (get_capacity m)))
   \<and> valid hash_id ex_heap ex_map
   \<and> real (size_hm ex_map) \<le> 1.5 * real (get_capacity ex_map)
   \<and> (\<exists>h' m'. insert_hm hash_id ex_heap ex_map 7 70 = Some (h', m')
         \<and> (get_capacity m' = 2 \<or> get_capacity m' = 4)
         \<and> real (size_hm m') \<le> 1.5 * real (get_capacity m'))"
proof -
  have tk: "take 12 ex_calls = ex_calls" by (simp add: ex_calls_def)
  have news: "\<forall>n. New n \<in> set ex_calls \<longrightarrow> 1 \<le> n" by (simp add: ex_calls_def)
  from ex_calls_run obtain h objs where
    r: "run_calls hash_id [] [] ex_calls = Some (h, objs)" "length objs = 3"
    by (cases "run_calls hash_id [] [] ex_calls") auto
  have sc: "real (size_hm ex_map) \<le> 1.5 * real (get_capacity ex_map)" "get_capacity ex_map = 2"
    by (simp_all add: size_hm_def get_capacity_def ex_map_def)
  note inst1 = load_factor_invariant[of ex_calls hash_id "[]" 12 h objs ex_heap ex_map 7 70]
  have p1: "\<forall>m\<in>set objs. real (size_hm m) \<le> 1.5 * real (get_capacity m)"
    using inst1 news r(1) tk by simp
  have p2: "\<exists>h' m'. insert_hm hash_id ex_heap ex_map 7 70 = Some (h', m')
         \<and> (get_capacity m' = 2 \<or> get_capacity m' = 4)
         \<and> real (size_hm m') \<le> 1.5 * real (get_capacity m')"
    using inst1 valid_example sc by simp
  show ?thesis using r p1 p2 tk valid_example sc(1) by auto
qed

end
